theory Spec2Isabelle
  imports Complex_Main "HOL-Library.AList" "HOL-Library.Log_Nat"
begin

section \<open>Trip expense splitting (app.py)\<close>

text \<open>
  The program splits an accommodation cost among participants in proportion to the
  nights each stayed, splits the additional expenses evenly, and rounds each
  participant's total to cents. \<open>even_split_expenses\<close> returns a dictionary from names
  to rounded totals; the loop in \<open>main\<close> recomputes the same amounts row by row for the
  table it displays.

  The source computes with Python floats and rounds through \<open>decimal.Decimal\<close>. The
  program text is translated once, over a record of the number operations it uses. The
  program's own arithmetic is IEEE binary64 with round-to-nearest-even (\<open>binary64\<close>
  below), and every property of the program is stated over it or over an arbitrary
  arithmetic. Exact rational arithmetic (\<open>exact\<close>) is kept beside it as the ideal the
  formulas are measured against: it says what the same program text would give if no
  operation rounded.
\<close>

subsection \<open>Errors and the operations on numbers\<close>

datatype py_error = ZeroDivisionError | OverflowError | InvalidOperation | KeyError

record 'a arith =
  num_zero :: 'a
  num_of_int :: "int \<Rightarrow> py_error + 'a"
  num_add :: "'a \<Rightarrow> 'a \<Rightarrow> 'a"
  num_mul :: "'a \<Rightarrow> 'a \<Rightarrow> 'a"
  num_div :: "'a \<Rightarrow> 'a \<Rightarrow> py_error + 'a"
  int_truediv :: "int \<Rightarrow> int \<Rightarrow> py_error + 'a"
  num_sum :: "'a list \<Rightarrow> 'a"
  quantize2 :: "'a \<Rightarrow> py_error + 'a"

text \<open>
  \<open>num_zero\<close> is the literal \<open>0\<close>; \<open>num_of_int\<close> converts the \<open>int\<close> operand of a
  float operation; \<open>num_div\<close> is \<open>/\<close> on two floats and \<open>int_truediv\<close> is \<open>/\<close> on two
  ints; \<open>num_sum\<close> is the builtin \<open>sum\<close>; \<open>quantize2\<close> is
  \<open>float(Decimal(x).quantize(Decimal("0.01"), rounding=ROUND_HALF_UP))\<close>.
\<close>

subsection \<open>Data\<close>

record participant =
  name :: string
  nights_stayed :: int

record 'a breakdown =
  row_participant :: string
  row_nights_stayed :: int
  accommodation_share :: 'a
  additional_share :: 'a
  total_owed :: 'a

text \<open>
  A Python dictionary keeps its keys in insertion order: it is an association list
  with distinct keys. Storing under a key that is present replaces its value in place,
  storing under a new key appends (\<open>AList.update\<close>); reading a missing key raises
  \<open>KeyError\<close>.
\<close>

type_synonym 'a shares = "(string \<times> 'a) list"

subsection \<open>The shared pieces of both computations\<close>

text \<open>\<open>sum(p['nights_stayed'] for p in participants_info if p['nights_stayed'] > 0)\<close>\<close>

definition total_night_units :: "participant list \<Rightarrow> int" where
  "total_night_units ps = sum_list (map nights_stayed (filter (\<lambda>p. nights_stayed p > 0) ps))"

text \<open>
  The accommodation share of one participant: lines 19 to 22 of \<open>even_split_expenses\<close>
  and lines 219 to 222 of \<open>main\<close>. \<open>n\<close> is \<open>len(participants_info)\<close>.
\<close>

definition cost_share :: "'a arith \<Rightarrow> 'a \<Rightarrow> nat \<Rightarrow> int \<Rightarrow> int \<Rightarrow> py_error + 'a" where
  "cost_share ar total_cost n night_units nights =
     (if night_units = 0 then
        (if n > 0 then
           (case num_of_int ar (int n) of
              Inl e \<Rightarrow> Inl e
            | Inr d \<Rightarrow> num_div ar total_cost d)
         else Inr (num_zero ar))
      else
        (case int_truediv ar nights night_units of
           Inl e \<Rightarrow> Inl e
         | Inr r \<Rightarrow> Inr (num_mul ar total_cost r)))"

text \<open>
  The additional share of every participant: lines 26 to 29 of \<open>even_split_expenses\<close>
  and lines 224 to 227 of \<open>main\<close>.
\<close>

definition per_person_additional :: "'a arith \<Rightarrow> 'a \<Rightarrow> nat \<Rightarrow> py_error + 'a" where
  "per_person_additional ar total_shared_expenses n =
     (if n > 0 then
        (case num_of_int ar (int n) of
           Inl e \<Rightarrow> Inl e
         | Inr d \<Rightarrow> num_div ar total_shared_expenses d)
      else Inr (num_zero ar))"

subsection \<open>even_split_expenses\<close>

text \<open>The first loop: \<open>shares[participant['name']] = cost_share\<close>.\<close>

fun assign_cost_shares ::
  "'a arith \<Rightarrow> 'a \<Rightarrow> nat \<Rightarrow> int \<Rightarrow> participant list \<Rightarrow> 'a shares \<Rightarrow> py_error + 'a shares" where
  "assign_cost_shares ar total_cost n night_units [] shares = Inr shares"
| "assign_cost_shares ar total_cost n night_units (p # ps) shares =
     (case cost_share ar total_cost n night_units (nights_stayed p) of
        Inl e \<Rightarrow> Inl e
      | Inr c \<Rightarrow>
          assign_cost_shares ar total_cost n night_units ps (AList.update (name p) c shares))"

text \<open>The second loop: \<open>shares[participant['name']] += per_person_additional\<close>.\<close>

fun add_additional :: "'a arith \<Rightarrow> 'a \<Rightarrow> participant list \<Rightarrow> 'a shares \<Rightarrow> py_error + 'a shares" where
  "add_additional ar additional [] shares = Inr shares"
| "add_additional ar additional (p # ps) shares =
     (case map_of shares (name p) of
        None \<Rightarrow> Inl KeyError
      | Some v \<Rightarrow>
          add_additional ar additional ps
            (AList.update (name p) (num_add ar v additional) shares))"

text \<open>
  The third loop walks \<open>shares.items()\<close> and stores the rounded amount back under the
  same key.
\<close>

fun round_shares :: "'a arith \<Rightarrow> 'a shares \<Rightarrow> 'a shares \<Rightarrow> py_error + 'a shares" where
  "round_shares ar [] shares = Inr shares"
| "round_shares ar ((k, amount) # items) shares =
     (case quantize2 ar amount of
        Inl e \<Rightarrow> Inl e
      | Inr r \<Rightarrow> round_shares ar items (AList.update k r shares))"

definition even_split_expenses ::
  "'a arith \<Rightarrow> 'a \<Rightarrow> participant list \<Rightarrow> (string \<times> 'a) list \<Rightarrow> py_error + 'a shares" where
  "even_split_expenses ar total_airbnb_cost participants_info additional_expenses =
     (case assign_cost_shares ar total_airbnb_cost (length participants_info)
             (total_night_units participants_info) participants_info [] of
        Inl e \<Rightarrow> Inl e
      | Inr shares \<Rightarrow>
          (case per_person_additional ar (num_sum ar (map snd additional_expenses))
                  (length participants_info) of
             Inl e \<Rightarrow> Inl e
           | Inr additional \<Rightarrow>
               (case add_additional ar additional participants_info shares of
                  Inl e \<Rightarrow> Inl e
                | Inr shares' \<Rightarrow> round_shares ar shares' shares')))"

subsection \<open>The breakdown loop of main\<close>

fun breakdown_loop ::
  "'a arith \<Rightarrow> 'a \<Rightarrow> nat \<Rightarrow> int \<Rightarrow> 'a \<Rightarrow> participant list \<Rightarrow> py_error + 'a breakdown list" where
  "breakdown_loop ar total_cost n night_units total_shared_expenses [] = Inr []"
| "breakdown_loop ar total_cost n night_units total_shared_expenses (p # ps) =
     (case cost_share ar total_cost n night_units (nights_stayed p) of
        Inl e \<Rightarrow> Inl e
      | Inr base_cost_share \<Rightarrow>
          (case per_person_additional ar total_shared_expenses n of
             Inl e \<Rightarrow> Inl e
           | Inr additional \<Rightarrow>
               (case quantize2 ar (num_add ar base_cost_share additional) of
                  Inl e \<Rightarrow> Inl e
                | Inr total_owed_rounded \<Rightarrow>
                    (case breakdown_loop ar total_cost n night_units total_shared_expenses ps of
                       Inl e \<Rightarrow> Inl e
                     | Inr rows \<Rightarrow>
                         Inr (\<lparr>row_participant = name p,
                               row_nights_stayed = nights_stayed p,
                               accommodation_share = base_cost_share,
                               additional_share = additional,
                               total_owed = total_owed_rounded\<rparr> # rows)))))"

definition breakdown_rows ::
  "'a arith \<Rightarrow> 'a \<Rightarrow> participant list \<Rightarrow> (string \<times> 'a) list \<Rightarrow> py_error + 'a breakdown list" where
  "breakdown_rows ar total_cost participants_info additional_expenses =
     breakdown_loop ar total_cost (length participants_info)
       (total_night_units participants_info)
       (num_sum ar (map snd additional_expenses)) participants_info"

subsection \<open>Rounding to cents\<close>

text \<open>
  \<open>Decimal.quantize\<close> with \<open>ROUND_HALF_UP\<close> works on the magnitude: the digits after
  the second decimal are cut, and the magnitude goes up by one cent when the first digit
  cut is 5 or more. It raises \<open>InvalidOperation\<close> when the result needs more than the 28
  digits of the default context, that is from \<open>10^26\<close> on.
\<close>

definition round_half_up_cents :: "rat \<Rightarrow> int" where
  "round_half_up_cents x =
     (let c = \<lfloor>\<bar>x\<bar> * 100\<rfloor>
      in if \<bar>x\<bar> * 100 - of_int c \<ge> 1 / 2 then c + 1 else c)"

definition round_half_up_2dp :: "rat \<Rightarrow> rat" where
  "round_half_up_2dp x = sgn x * of_int (round_half_up_cents x) / 100"

definition decimal_quantize :: "rat \<Rightarrow> py_error + rat" where
  "decimal_quantize x =
     (if round_half_up_cents x \<ge> 10 ^ 28 then Inl InvalidOperation
      else Inr (round_half_up_2dp x))"

subsection \<open>Exact arithmetic, for reference\<close>

text \<open>
  The same operations without rounding error. This is not the arithmetic the program
  runs on: it is the reading in which the shares add up exactly, and it serves only to
  say what the formulas give in exact arithmetic, beside the statements over
  \<open>binary64\<close>.
\<close>

definition exact :: "rat arith" where
  "exact =
     \<lparr>num_zero = 0,
      num_of_int = (\<lambda>i. Inr (of_int i)),
      num_add = (\<lambda>a b. a + b),
      num_mul = (\<lambda>a b. a * b),
      num_div = (\<lambda>a b. if b = 0 then Inl ZeroDivisionError else Inr (a / b)),
      int_truediv = (\<lambda>a b. if b = 0 then Inl ZeroDivisionError else Inr (of_int a / of_int b)),
      num_sum = sum_list,
      quantize2 = decimal_quantize\<rparr>"

subsection \<open>IEEE binary64\<close>

text \<open>
  A Python float is a binary64 value: a finite number \<open>m * 2^e\<close> with \<open>\<bar>m\<bar> < 2^53\<close> and
  \<open>- 1074 \<le> e \<le> 971\<close>, an infinity, or a NaN. Finite values are kept as the rationals
  they denote; the two zeros are not told apart (the program never divides by a zero and
  never reads a sign). Every operation computes exactly and rounds to nearest, ties to
  even; a result of magnitude \<open>2^1024\<close> or more after rounding is an infinity.
\<close>

datatype f64 = Finite rat | PlusInf | MinusInf | NaN

definition round_half_even :: "rat \<Rightarrow> int" where
  "round_half_even x =
     (let f = \<lfloor>x\<rfloor>; d = x - of_int f
      in if d < 1 / 2 then f else if d > 1 / 2 then f + 1 else if even f then f else f + 1)"

text \<open>The binary exponent \<open>\<lfloor>log\<^sub>2 a\<rfloor>\<close> of a positive rational, from the bit lengths of its
  numerator and denominator.\<close>

definition ilog2 :: "rat \<Rightarrow> int" where
  "ilog2 a =
     (let k = bitlen (fst (quotient_of a)) - bitlen (snd (quotient_of a))
      in if 2 powi k \<le> a then k else k - 1)"

definition round_f64 :: "rat \<Rightarrow> f64" where
  "round_f64 x =
     (if x = 0 then Finite 0
      else
        (let e = max (ilog2 \<bar>x\<bar> - 52) (- 1074);
             r = of_int (round_half_even (\<bar>x\<bar> / 2 powi e)) * 2 powi e
         in if r \<ge> 2 ^ 1024 then (if x > 0 then PlusInf else MinusInf)
            else Finite (sgn x * r)))"

fun f64_add :: "f64 \<Rightarrow> f64 \<Rightarrow> f64" where
  "f64_add (Finite a) (Finite b) = round_f64 (a + b)"
| "f64_add NaN b = NaN"
| "f64_add a NaN = NaN"
| "f64_add PlusInf MinusInf = NaN"
| "f64_add MinusInf PlusInf = NaN"
| "f64_add PlusInf b = PlusInf"
| "f64_add MinusInf b = MinusInf"
| "f64_add (Finite a) b = b"

fun f64_mul :: "f64 \<Rightarrow> f64 \<Rightarrow> f64" where
  "f64_mul (Finite a) (Finite b) = round_f64 (a * b)"
| "f64_mul NaN b = NaN"
| "f64_mul a NaN = NaN"
| "f64_mul (Finite a) PlusInf = (if a = 0 then NaN else if a > 0 then PlusInf else MinusInf)"
| "f64_mul (Finite a) MinusInf = (if a = 0 then NaN else if a > 0 then MinusInf else PlusInf)"
| "f64_mul PlusInf (Finite b) = (if b = 0 then NaN else if b > 0 then PlusInf else MinusInf)"
| "f64_mul MinusInf (Finite b) = (if b = 0 then NaN else if b > 0 then MinusInf else PlusInf)"
| "f64_mul PlusInf PlusInf = PlusInf"
| "f64_mul MinusInf MinusInf = PlusInf"
| "f64_mul PlusInf MinusInf = MinusInf"
| "f64_mul MinusInf PlusInf = MinusInf"

text \<open>Python's float division raises on a zero divisor before anything else.\<close>

fun f64_div :: "f64 \<Rightarrow> f64 \<Rightarrow> py_error + f64" where
  "f64_div a (Finite b) =
     (if b = 0 then Inl ZeroDivisionError
      else
        (case a of
           Finite x \<Rightarrow> Inr (round_f64 (x / b))
         | PlusInf \<Rightarrow> Inr (if b > 0 then PlusInf else MinusInf)
         | MinusInf \<Rightarrow> Inr (if b > 0 then MinusInf else PlusInf)
         | NaN \<Rightarrow> Inr NaN))"
| "f64_div a NaN = Inr NaN"
| "f64_div (Finite x) b = Inr (Finite 0)"
| "f64_div a b = Inr NaN"

text \<open>
  An \<open>int\<close> operand of a float operation is converted first, and an \<open>int\<close> too large for
  a float raises \<open>OverflowError\<close>. \<open>/\<close> on two ints rounds the exact quotient once and
  raises \<open>OverflowError\<close> when it is too large.
\<close>

definition f64_of_int :: "int \<Rightarrow> py_error + f64" where
  "f64_of_int i =
     (case round_f64 (of_int i) of
        Finite q \<Rightarrow> Inr (Finite q)
      | PlusInf \<Rightarrow> Inl OverflowError
      | MinusInf \<Rightarrow> Inl OverflowError
      | NaN \<Rightarrow> Inl OverflowError)"

definition f64_int_truediv :: "int \<Rightarrow> int \<Rightarrow> py_error + f64" where
  "f64_int_truediv i j =
     (if j = 0 then Inl ZeroDivisionError
      else
        (case round_f64 (of_int i / of_int j) of
           Finite q \<Rightarrow> Inr (Finite q)
         | PlusInf \<Rightarrow> Inl OverflowError
         | MinusInf \<Rightarrow> Inl OverflowError
         | NaN \<Rightarrow> Inl OverflowError))"

text \<open>
  \<open>sum\<close> starts from \<open>0\<close> and adds the items from left to right. (CPython from 3.12 on
  compensates the rounding error of a float sum; the statements below read the expenses
  only through the value \<open>sum\<close> returns.)
\<close>

definition f64_sum :: "f64 list \<Rightarrow> f64" where
  "f64_sum xs = foldl f64_add (Finite 0) xs"

text \<open>
  \<open>Decimal(x)\<close> is the exact value of the float \<open>x\<close>. \<open>quantize\<close> raises
  \<open>InvalidOperation\<close> on an infinity and passes a NaN through; \<open>float\<close> of the result is
  the nearest binary64 value.
\<close>

definition f64_quantize :: "f64 \<Rightarrow> py_error + f64" where
  "f64_quantize x =
     (case x of
        Finite q \<Rightarrow>
          (case decimal_quantize q of
             Inl e \<Rightarrow> Inl e
           | Inr r \<Rightarrow> Inr (round_f64 r))
      | PlusInf \<Rightarrow> Inl InvalidOperation
      | MinusInf \<Rightarrow> Inl InvalidOperation
      | NaN \<Rightarrow> Inr NaN)"

definition binary64 :: "f64 arith" where
  "binary64 =
     \<lparr>num_zero = Finite 0,
      num_of_int = f64_of_int,
      num_add = f64_add,
      num_mul = f64_mul,
      num_div = f64_div,
      int_truediv = f64_int_truediv,
      num_sum = f64_sum,
      quantize2 = f64_quantize\<rparr>"

subsection \<open>What a row of the table is\<close>

text \<open>
  \<open>row_of\<close> relates one participant to the row the breakdown loop appends for it: the
  name and the nights are copied, the two shares are the unrounded values computed from
  this participant's nights, and the total is their sum rounded.
\<close>

definition row_of ::
  "'a arith \<Rightarrow> 'a \<Rightarrow> nat \<Rightarrow> int \<Rightarrow> 'a \<Rightarrow> participant \<Rightarrow> 'a breakdown \<Rightarrow> bool" where
  "row_of ar total_cost n night_units total_shared_expenses p r =
     (row_participant r = name p \<and> row_nights_stayed r = nights_stayed p \<and>
      cost_share ar total_cost n night_units (nights_stayed p) = Inr (accommodation_share r) \<and>
      per_person_additional ar total_shared_expenses n = Inr (additional_share r) \<and>
      quantize2 ar (num_add ar (accommodation_share r) (additional_share r)) =
        Inr (total_owed r) \<and>
      breakdown.more r = ())"

section \<open>Properties\<close>

subsection \<open>The breakdown loop, row by row\<close>

text \<open>The loop returns exactly the lists of rows that \<open>row_of\<close> relates to the
  participants, position by position.\<close>
lemma breakdown_loop_Inr_iff:
  "breakdown_loop ar tc n t s ps = Inr rows \<longleftrightarrow> list_all2 (row_of ar tc n t s) ps rows"
proof (induction ps arbitrary: rows)
  case Nil
  then show ?case by auto
next
  case (Cons p ps)
  show ?case
  proof (cases rows)
    case Nil
    then show ?thesis by (auto split: sum.splits)
  next
    case (Cons r rs)
    then show ?thesis using Cons.IH [of rs]
      by (cases r) (auto simp: row_of_def split: sum.splits)
  qed
qed

subsection \<open>The shares in exact arithmetic\<close>
lemma exact_simps:
  "num_zero exact = 0" "num_of_int exact i = Inr (of_int i)"
  "num_add exact a b = a + b" "num_mul exact a b = a * b"
  "num_div exact a b = (if b = 0 then Inl ZeroDivisionError else Inr (a / b))"
  "int_truediv exact i j = (if j = 0 then Inl ZeroDivisionError else Inr (of_int i / of_int j))"
  "num_sum exact xs = sum_list xs" "quantize2 exact a = decimal_quantize a"
  by (simp_all add: exact_def)

lemma cost_share_exact:
  "cost_share exact tc n t k =
     Inr (if t = 0 then (if n > 0 then tc / of_nat n else 0) else tc * (of_int k / of_int t))"
  by (simp add: cost_share_def exact_def)

lemma per_person_additional_exact:
  "per_person_additional exact s n = Inr (if n > 0 then s / of_nat n else 0)"
  by (simp add: per_person_additional_def exact_def)

lemma total_night_units_nonneg:
  "list_all (\<lambda>p. nights_stayed p \<ge> 0) ps \<Longrightarrow> total_night_units ps = sum_list (map nights_stayed ps)"
  unfolding total_night_units_def
  by (induction ps) auto

lemma row_of_exact:
  assumes "row_of exact tc n t s p r" and "n > 0"
  shows "accommodation_share r =
           (if t = 0 then tc / of_nat n else tc * (of_int (nights_stayed p) / of_int t))"
    and "additional_share r = s / of_nat n"
    and "total_owed r = round_half_up_2dp (accommodation_share r + additional_share r)"
  using assms
  by (auto simp: row_of_def cost_share_exact per_person_additional_exact exact_simps
      decimal_quantize_def split: if_splits)

lemma rows_exact:
  assumes "list_all2 (row_of exact tc n t s) ps rows" and "n > 0"
  shows "map accommodation_share rows =
           map (\<lambda>p. if t = 0 then tc / of_nat n
                      else tc * (of_int (nights_stayed p) / of_int t)) ps"
    and "map additional_share rows = map (\<lambda>p. s / of_nat n) ps"
    and "map total_owed rows =
           map (\<lambda>r. round_half_up_2dp (accommodation_share r + additional_share r)) rows"
  using assms
  by (induction ps rows rule: list_all2_induct) (simp_all add: row_of_exact)

lemma breakdown_rows_exact:
  assumes "breakdown_rows exact tc ps ex = Inr rows"
  shows "map accommodation_share rows =
           map (\<lambda>p. if total_night_units ps = 0 then tc / of_nat (length ps)
                      else tc * (of_int (nights_stayed p) / of_int (total_night_units ps))) ps"
    and "map additional_share rows = map (\<lambda>p. sum_list (map snd ex) / of_nat (length ps)) ps"
    and "map total_owed rows =
           map (\<lambda>r. round_half_up_2dp (accommodation_share r + additional_share r)) rows"
proof -
  have l: "list_all2 (row_of exact tc (length ps) (total_night_units ps) (sum_list (map snd ex))) ps rows"
    using assms by (simp add: breakdown_rows_def breakdown_loop_Inr_iff exact_simps)
  show "map accommodation_share rows =
           map (\<lambda>p. if total_night_units ps = 0 then tc / of_nat (length ps)
                      else tc * (of_int (nights_stayed p) / of_int (total_night_units ps))) ps"
    using l rows_exact(1) [OF l] by (cases ps) auto
  show "map additional_share rows = map (\<lambda>p. sum_list (map snd ex) / of_nat (length ps)) ps"
    using l rows_exact(2) [OF l] by (cases ps) auto
  show "map total_owed rows =
           map (\<lambda>r. round_half_up_2dp (accommodation_share r + additional_share r)) rows"
    using l rows_exact(3) [OF l] by (cases ps) auto
qed

lemma sum_list_scaled:
  fixes c :: rat
  shows "sum_list (map (\<lambda>p. c * (of_int (f p) / of_int t)) ps) = c * (of_int (sum_list (map f ps)) / of_int t)"
  by (induction ps) (simp_all add: algebra_simps add_divide_distrib del: times_divide_eq_right)

lemma round_half_up_2dp_cents: "\<exists>k::int. round_half_up_2dp x = of_int k / 100"
proof -
  have "sgn x = of_int (sgn \<lfloor>x\<rfloor>) \<or> sgn x = 1 \<or> sgn x = 0 \<or> sgn x = -1"
    by (simp add: sgn_if)
  then have "\<exists>s::int. sgn x = of_int s"
    by (metis of_int_0 of_int_1 of_int_minus)
  then obtain s :: int where s: "sgn x = of_int s" ..
  have "round_half_up_2dp x = of_int (s * round_half_up_cents x) / 100"
    by (simp add: round_half_up_2dp_def s)
  then show ?thesis ..
qed

text \<open>What \<open>round_half_up_2dp\<close> computes: a nearest cent, and at a tie the cent further from zero.\<close>

lemma round_half_up_cents_bounds:
  "\<bar>x\<bar> * 100 - 1 / 2 < of_int (round_half_up_cents x)"
  "of_int (round_half_up_cents x) \<le> \<bar>x\<bar> * 100 + 1 / 2"
proof -
  have 1: "of_int \<lfloor>\<bar>x\<bar> * 100\<rfloor> \<le> \<bar>x\<bar> * 100" by simp
  have 2: "\<bar>x\<bar> * 100 < of_int \<lfloor>\<bar>x\<bar> * 100\<rfloor> + 1" by linarith
  show "\<bar>x\<bar> * 100 - 1 / 2 < of_int (round_half_up_cents x)"
    using 1 2 unfolding round_half_up_cents_def Let_def by (auto; linarith)
  show "of_int (round_half_up_cents x) \<le> \<bar>x\<bar> * 100 + 1 / 2"
    using 1 2 unfolding round_half_up_cents_def Let_def by (auto; linarith)
qed

text \<open>The rounded value is a nearest multiple of a cent.\<close>

lemma round_half_up_2dp_nearest: "\<bar>round_half_up_2dp x - x\<bar> \<le> 1 / 200"
proof -
  define c :: rat where "c = of_int (round_half_up_cents x)"
  have b: "\<bar>x\<bar> * 100 - 1 / 2 < c" "c \<le> \<bar>x\<bar> * 100 + 1 / 2"
    unfolding c_def by (rule round_half_up_cents_bounds)+
  have d: "\<bar>c / 100 - \<bar>x\<bar>\<bar> \<le> 1 / 200" using b by linarith
  consider (neg) "x < 0" | (zero) "x = 0" | (pos) "0 < x" by linarith
  then show ?thesis
  proof cases
    case neg
    then have "round_half_up_2dp x - x = - (c / 100 - \<bar>x\<bar>)"
      by (simp add: round_half_up_2dp_def c_def)
    then show ?thesis using d by (simp only: abs_minus_cancel)
  next
    case zero
    then show ?thesis by (simp add: round_half_up_2dp_def)
  next
    case pos
    then have "round_half_up_2dp x - x = c / 100 - \<bar>x\<bar>"
      by (simp add: round_half_up_2dp_def c_def)
    then show ?thesis using d by (simp only:)
  qed
qed

text \<open>A value halfway between two cents goes to the one further from zero.\<close>

lemma round_half_up_2dp_midpoint:
  assumes "0 \<le> k"
  shows "round_half_up_2dp ((of_int k + 1 / 2) / 100) = (of_int k + 1) / 100"
    and "round_half_up_2dp (- ((of_int k + 1 / 2) / 100)) = - ((of_int k + 1) / 100)"
proof -
  let ?x = "(of_int k + 1 / 2) / 100 :: rat"
  have x: "0 < ?x" using assms by simp
  have f: "\<lfloor>(of_int k :: rat) + 1 / 2\<rfloor> = k" by (intro floor_unique) simp_all
  have m: "\<bar>?x\<bar> * 100 = of_int k + 1 / 2" using x by simp
  have c: "round_half_up_cents ?x = k + 1"
    unfolding round_half_up_cents_def Let_def m f by simp
  then show "round_half_up_2dp ?x = (of_int k + 1) / 100"
    using x by (simp add: round_half_up_2dp_def)
  have "round_half_up_cents (- ?x) = round_half_up_cents ?x"
    by (simp add: round_half_up_cents_def)
  then show "round_half_up_2dp (- ?x) = - ((of_int k + 1) / 100)"
    using x c by (simp add: round_half_up_2dp_def sgn_if field_simps)
qed

lemma floor_rat_divide_numeral:
  "\<lfloor>(numeral a :: rat) / numeral b\<rfloor> = numeral a div numeral b"
  using floor_divide_of_int_eq [of "numeral a" "numeral b", where ?'a = rat] by simp

lemmas eval_defs = breakdown_rows_def even_split_expenses_def total_night_units_def cost_share_def
  per_person_additional_def exact_simps decimal_quantize_def round_half_up_2dp_def
  round_half_up_cents_def Let_def floor_rat_divide_numeral

subsection \<open>The dictionary of even_split_expenses\<close>
lemma update_absent: "k \<notin> fst ` set al \<Longrightarrow> AList.update k v al = al @ [(k, v)]"
  by (induction al) auto

lemma update_present:
  "k \<notin> fst ` set pre \<Longrightarrow> AList.update k v (pre @ (k, c) # rest) = pre @ (k, v) # rest"
  by (induction pre) auto

lemma map_of_present:
  "k \<notin> fst ` set pre \<Longrightarrow> map_of (pre @ (k, c) # rest) k = Some c"
  by (induction pre) auto

lemma assign_cost_shares_distinct:
  assumes "distinct (map name ps)" and "name ` set ps \<inter> fst ` set sh = {}"
  shows "assign_cost_shares ar tc n t ps sh = Inr res \<longleftrightarrow>
         (\<exists>cs. list_all2 (\<lambda>p c. cost_share ar tc n t (nights_stayed p) = Inr c) ps cs \<and>
               res = sh @ zip (map name ps) cs)"
  using assms
proof (induction ps arbitrary: sh)
  case Nil
  then show ?case by auto
next
  case (Cons p ps)
  show ?case
  proof (cases "cost_share ar tc n t (nights_stayed p)")
    case (Inl e)
    then show ?thesis by (auto simp: list_all2_Cons1)
  next
    case (Inr c)
    have k: "name p \<notin> fst ` set sh" using Cons.prems(2) by auto
    have d: "distinct (map name ps)" using Cons.prems(1) by simp
    have i: "name ` set ps \<inter> fst ` set (sh @ [(name p, c)]) = {}"
      using Cons.prems by auto
    show ?thesis
      using Cons.IH [OF d i] Inr k
      by (auto simp: update_absent list_all2_Cons1)
  qed
qed

lemma add_additional_distinct:
  assumes "distinct (map fst pre @ map name ps)" and "length cs = length ps"
  shows "add_additional ar a ps (pre @ zip (map name ps) cs) =
           Inr (pre @ zip (map name ps) (map (\<lambda>c. num_add ar c a) cs))"
  using assms
proof (induction ps arbitrary: pre cs)
  case Nil
  then show ?case by simp
next
  case (Cons p ps)
  then obtain c cs' where cs: "cs = c # cs'" by (cases cs) auto
  have k: "name p \<notin> fst ` set pre" using Cons.prems(1) by auto
  have d: "distinct (map fst (pre @ [(name p, num_add ar c a)]) @ map name ps)"
    using Cons.prems(1) by auto
  have l: "length cs' = length ps" using Cons.prems(2) cs by simp
  have m: "map_of (pre @ (name p, c) # zip (map name ps) cs') (name p) = Some c"
    by (rule map_of_present [OF k])
  have u: "AList.update (name p) (num_add ar c a) (pre @ (name p, c) # zip (map name ps) cs') =
           pre @ (name p, num_add ar c a) # zip (map name ps) cs'"
    by (rule update_present [OF k])
  show ?case
    using Cons.IH [OF d l] m u
    by (simp add: cs del: map_of_append)
qed

lemma round_shares_distinct:
  assumes "distinct (map fst pre @ map fst items)"
  shows "round_shares ar items (pre @ items) = Inr res \<longleftrightarrow>
         (\<exists>rs. list_all2 (\<lambda>kv r. quantize2 ar (snd kv) = Inr r) items rs \<and>
               res = pre @ zip (map fst items) rs)"
  using assms
proof (induction items arbitrary: pre)
  case Nil
  then show ?case by auto
next
  case (Cons kv items)
  obtain k v where kv: "kv = (k, v)" by (cases kv)
  show ?case
  proof (cases "quantize2 ar v")
    case (Inl e)
    then show ?thesis by (auto simp: kv list_all2_Cons1)
  next
    case (Inr r)
    have k: "k \<notin> fst ` set pre" using Cons.prems kv by auto
    have d: "distinct (map fst (pre @ [(k, r)]) @ map fst items)"
      using Cons.prems kv by auto
    show ?thesis
      using Cons.IH [OF d] Inr k
      by (auto simp: kv update_present list_all2_Cons1)
  qed
qed

lemma even_split_expenses_distinct:
  assumes "distinct (map name ps)"
  shows "even_split_expenses ar tc ps ex = Inr res \<longleftrightarrow>
         (\<exists>cs a rs.
            list_all2 (\<lambda>p c. cost_share ar tc (length ps) (total_night_units ps) (nights_stayed p) = Inr c) ps cs \<and>
            per_person_additional ar (num_sum ar (map snd ex)) (length ps) = Inr a \<and>
            list_all2 (\<lambda>c r. quantize2 ar (num_add ar c a) = Inr r) cs rs \<and>
            res = zip (map name ps) rs)"
  (is "?L \<longleftrightarrow> ?R")
proof
  assume ?L
  then obtain sh a sh' where
    1: "assign_cost_shares ar tc (length ps) (total_night_units ps) ps [] = Inr sh" and
    2: "per_person_additional ar (num_sum ar (map snd ex)) (length ps) = Inr a" and
    3: "add_additional ar a ps sh = Inr sh'" and
    4: "round_shares ar sh' sh' = Inr res"
    by (auto simp: even_split_expenses_def split: sum.splits)
  from 1 obtain cs where
    cs: "list_all2 (\<lambda>p c. cost_share ar tc (length ps) (total_night_units ps) (nights_stayed p) = Inr c) ps cs"
    and sh: "sh = zip (map name ps) cs"
    using assign_cost_shares_distinct
      [OF assms, where sh = "[]" and ar = ar and tc = tc and n = "length ps"
         and t = "total_night_units ps" and res = sh]
    by auto
  have len: "length cs = length ps" using cs by (simp add: list_all2_lengthD)
  have sh': "sh' = zip (map name ps) (map (\<lambda>c. num_add ar c a) cs)"
    using 3 add_additional_distinct [of "[]" ps cs ar a] assms len sh by simp
  have keys: "map fst sh' = map name ps" using len by (simp add: sh')
  have "distinct (map fst [] @ map fst sh')" using assms keys by simp
  from round_shares_distinct [OF this, of ar res] 4 obtain rs where
    rs: "list_all2 (\<lambda>kv r. quantize2 ar (snd kv) = Inr r) sh' rs" and res: "res = zip (map fst sh') rs"
    by auto
  have vals: "map snd sh' = map (\<lambda>c. num_add ar c a) cs" using len by (simp add: sh')
  have "list_all2 (\<lambda>v r. quantize2 ar v = Inr r) (map snd sh') rs"
    using rs by (simp add: list_all2_map1)
  then have q: "list_all2 (\<lambda>c r. quantize2 ar (num_add ar c a) = Inr r) cs rs"
    unfolding vals by (simp add: list_all2_map1)
  have res': "res = zip (map name ps) rs" using res keys by simp
  show ?R
    by (rule exI [of _ cs], rule exI [of _ a], rule exI [of _ rs]) (simp add: cs 2 q res')
next
  assume ?R
  then obtain cs a rs where
    cs: "list_all2 (\<lambda>p c. cost_share ar tc (length ps) (total_night_units ps) (nights_stayed p) = Inr c) ps cs"
    and a: "per_person_additional ar (num_sum ar (map snd ex)) (length ps) = Inr a"
    and rs: "list_all2 (\<lambda>c r. quantize2 ar (num_add ar c a) = Inr r) cs rs"
    and res: "res = zip (map name ps) rs"
    by auto
  have len: "length cs = length ps" using cs by (simp add: list_all2_lengthD)
  let ?sh = "zip (map name ps) cs"
  let ?sh' = "zip (map name ps) (map (\<lambda>c. num_add ar c a) cs)"
  have 1: "assign_cost_shares ar tc (length ps) (total_night_units ps) ps [] = Inr ?sh"
    using assign_cost_shares_distinct
      [OF assms, where sh = "[]" and ar = ar and tc = tc and n = "length ps"
         and t = "total_night_units ps" and res = "?sh"] cs
    by auto
  have 3: "add_additional ar a ps ?sh = Inr ?sh'"
    using add_additional_distinct [of "[]" ps cs ar a] assms len by simp
  have keys: "map fst ?sh' = map name ps" using len by simp
  have vals: "map snd ?sh' = map (\<lambda>c. num_add ar c a) cs" using len by simp
  have "list_all2 (\<lambda>v r. quantize2 ar v = Inr r) (map (\<lambda>c. num_add ar c a) cs) rs"
    using rs by (simp add: list_all2_map1)
  then have "list_all2 (\<lambda>v r. quantize2 ar v = Inr r) (map snd ?sh') rs"
    unfolding vals .
  then have q: "list_all2 (\<lambda>kv r. quantize2 ar (snd kv) = Inr r) ?sh' rs"
    by (simp add: list_all2_map1)
  have "distinct (map fst [] @ map fst ?sh')" using assms keys by simp
  from round_shares_distinct [OF this, of ar res]
  have 4: "round_shares ar ?sh' ?sh' = Inr res"
    using q res keys by auto
  show ?L
    by (simp add: even_split_expenses_def 1 a 3 4)
qed

lemma rows_of_split:
  assumes "list_all2 (\<lambda>p c. cost_share ar tc n t (nights_stayed p) = Inr c) ps cs"
    and "ps \<noteq> [] \<Longrightarrow> per_person_additional ar s n = Inr a"
    and "list_all2 (\<lambda>c r. quantize2 ar (num_add ar c a) = Inr r) cs rs"
  shows "\<exists>rows. list_all2 (row_of ar tc n t s) ps rows \<and>
                 map (\<lambda>r. (row_participant r, total_owed r)) rows = zip (map name ps) rs"
  using assms
proof (induction ps arbitrary: cs rs)
  case Nil
  then show ?case by simp
next
  case (Cons p ps)
  from Cons.prems(1) obtain c cs' where cs: "cs = c # cs'"
    and c: "cost_share ar tc n t (nights_stayed p) = Inr c"
    and cs': "list_all2 (\<lambda>p c. cost_share ar tc n t (nights_stayed p) = Inr c) ps cs'"
    by (auto simp: list_all2_Cons1)
  from Cons.prems(3) cs obtain r rs' where rs: "rs = r # rs'"
    and r: "quantize2 ar (num_add ar c a) = Inr r"
    and rs': "list_all2 (\<lambda>c r. quantize2 ar (num_add ar c a) = Inr r) cs' rs'"
    by (auto simp: list_all2_Cons1)
  have a: "per_person_additional ar s n = Inr a" using Cons.prems(2) by simp
  from Cons.IH [OF cs' a rs'] obtain rows where
    rows: "list_all2 (row_of ar tc n t s) ps rows"
    and m: "map (\<lambda>r. (row_participant r, total_owed r)) rows = zip (map name ps) rs'"
    by auto
  let ?row = "\<lparr>row_participant = name p, row_nights_stayed = nights_stayed p,
               accommodation_share = c, additional_share = a, total_owed = r\<rparr>"
  have "row_of ar tc n t s p ?row" by (simp add: row_of_def c a r)
  then have "list_all2 (row_of ar tc n t s) (p # ps) (?row # rows)" using rows by simp
  moreover have "map (\<lambda>r. (row_participant r, total_owed r)) (?row # rows) =
      zip (map name (p # ps)) rs"
    using m rs by simp
  ultimately show ?case by blast
qed

lemma split_of_rows:
  assumes "list_all2 (row_of ar tc n t s) ps rows"
  shows "list_all2 (\<lambda>p c. cost_share ar tc n t (nights_stayed p) = Inr c) ps
           (map accommodation_share rows)"
    and "per_person_additional ar s n = Inr a \<Longrightarrow>
         list_all2 (\<lambda>c r. quantize2 ar (num_add ar c a) = Inr r)
           (map accommodation_share rows) (map total_owed rows)"
    and "map (\<lambda>r. (row_participant r, total_owed r)) rows = zip (map name ps) (map total_owed rows)"
    and "ps \<noteq> [] \<Longrightarrow> \<exists>a. per_person_additional ar s n = Inr a"
  using assms
  by (induction ps rows rule: list_all2_induct) (auto simp: row_of_def)

lemma per_person_additional_empty: "per_person_additional ar s 0 = Inr (num_zero ar)"
  by (simp add: per_person_additional_def)

lemma assign_cost_shares_keys:
  "assign_cost_shares ar tc n t ps sh = Inr res \<Longrightarrow>
     fst ` set res = fst ` set sh \<union> name ` set ps \<and>
     (distinct (map fst sh) \<longrightarrow> distinct (map fst res))"
proof (induction ps arbitrary: sh)
  case Nil
  then show ?case by simp
next
  case (Cons p ps)
  from Cons.prems obtain c where
    "assign_cost_shares ar tc n t ps (AList.update (name p) c sh) = Inr res"
    by (auto split: sum.splits)
  from Cons.IH [OF this] show ?case
    by (auto simp: dom_update distinct_update)
qed

lemma add_additional_keys:
  "add_additional ar a ps sh = Inr res \<Longrightarrow> map fst res = map fst sh"
proof (induction ps arbitrary: sh)
  case Nil
  then show ?case by simp
next
  case (Cons p ps)
  from Cons.prems obtain v where v: "map_of sh (name p) = Some v"
    and r: "add_additional ar a ps (AList.update (name p) (num_add ar v a) sh) = Inr res"
    by (auto split: option.splits)
  have "name p \<in> set (map fst sh)" using v by (metis map_of_eq_None_iff option.distinct(1) set_map)
  then show ?case using Cons.IH [OF r] by (simp add: update_keys)
qed

lemma round_shares_keys:
  "round_shares ar items sh = Inr res \<Longrightarrow> fst ` set items \<subseteq> fst ` set sh \<Longrightarrow>
     map fst res = map fst sh"
proof (induction items arbitrary: sh)
  case Nil
  then show ?case by simp
next
  case (Cons kv items)
  obtain k v where kv: "kv = (k, v)" by (cases kv)
  from Cons.prems(1) obtain r where
    r: "round_shares ar items (AList.update k r sh) = Inr res"
    by (auto simp: kv split: sum.splits)
  have k: "k \<in> set (map fst sh)" using Cons.prems(2) kv by auto
  have "fst ` set items \<subseteq> fst ` set (AList.update k r sh)"
    using Cons.prems(2) by (auto simp: dom_update)
  from Cons.IH [OF r this] show ?case using k by (simp add: update_keys)
qed

lemma even_split_expenses_keys:
  assumes "even_split_expenses ar tc ps ex = Inr res"
  shows "distinct (map fst res)" and "set (map fst res) = name ` set ps"
proof -
  from assms obtain sh a sh' where
    1: "assign_cost_shares ar tc (length ps) (total_night_units ps) ps [] = Inr sh" and
    3: "add_additional ar a ps sh = Inr sh'" and
    4: "round_shares ar sh' sh' = Inr res"
    by (auto simp: even_split_expenses_def split: sum.splits)
  have "map fst res = map fst sh"
    using round_shares_keys [OF 4] add_additional_keys [OF 3] by simp
  then show "distinct (map fst res)" and "set (map fst res) = name ` set ps"
    using assign_cost_shares_keys [OF 1] by auto
qed

text \<open>
  Claim C8. When the names are pairwise distinct, \<open>even_split_expenses\<close> returns exactly
  when the breakdown loop does, and its entries are the names and rounded totals of the
  rows, in the same order. This holds over any arithmetic, so for floats as well.
\<close>
theorem split_agrees_with_breakdown:
  assumes "distinct (map name participants_info)"
  shows "case breakdown_rows ar total_cost participants_info additional_expenses of
           Inl e \<Rightarrow> isl (even_split_expenses ar total_cost participants_info additional_expenses)
         | Inr rows \<Rightarrow>
             even_split_expenses ar total_cost participants_info additional_expenses =
               Inr (map (\<lambda>r. (row_participant r, total_owed r)) rows)"
proof (cases "breakdown_rows ar total_cost participants_info additional_expenses")
  case (Inr rows)
  let ?n = "length participants_info" and ?t = "total_night_units participants_info"
  let ?s = "num_sum ar (map snd additional_expenses)"
  have l: "list_all2 (row_of ar total_cost ?n ?t ?s) participants_info rows"
    using Inr by (simp add: breakdown_rows_def breakdown_loop_Inr_iff)
  obtain a where a: "per_person_additional ar ?s ?n = Inr a"
  proof (cases "participants_info = []")
    case True
    then show ?thesis using that by (simp add: per_person_additional_empty)
  next
    case False
    then show ?thesis using split_of_rows(4) [OF l] that by blast
  qed
  have "even_split_expenses ar total_cost participants_info additional_expenses =
          Inr (zip (map name participants_info) (map total_owed rows))"
    unfolding even_split_expenses_distinct [OF assms]
    by (rule exI [of _ "map accommodation_share rows"], rule exI [of _ a],
        rule exI [of _ "map total_owed rows"])
       (simp add: split_of_rows(1) [OF l] split_of_rows(2) [OF l a] a)
  then show ?thesis using Inr split_of_rows(3) [OF l] by simp
next
  case (Inl e)
  have "isl (even_split_expenses ar total_cost participants_info additional_expenses)"
  proof (rule ccontr)
    assume "\<not> isl (even_split_expenses ar total_cost participants_info additional_expenses)"
    then obtain res where
      "even_split_expenses ar total_cost participants_info additional_expenses = Inr res"
      by (cases "even_split_expenses ar total_cost participants_info additional_expenses") auto
    then obtain cs a rs where
      cs: "list_all2 (\<lambda>p c. cost_share ar total_cost (length participants_info)
             (total_night_units participants_info) (nights_stayed p) = Inr c) participants_info cs"
      and a: "per_person_additional ar (num_sum ar (map snd additional_expenses))
               (length participants_info) = Inr a"
      and rs: "list_all2 (\<lambda>c r. quantize2 ar (num_add ar c a) = Inr r) cs rs"
      unfolding even_split_expenses_distinct [OF assms] by blast
    from rows_of_split [OF cs a rs] obtain rows where
      "list_all2 (row_of ar total_cost (length participants_info)
         (total_night_units participants_info) (num_sum ar (map snd additional_expenses)))
         participants_info rows"
      by blast
    then have "breakdown_rows ar total_cost participants_info additional_expenses = Inr rows"
      by (simp add: breakdown_rows_def breakdown_loop_Inr_iff)
    then show False using Inl by simp
  qed
  then show ?thesis using Inl by simp
qed

theorem split_agrees_with_breakdown_witness:
  "even_split_expenses exact 300
     [\<lparr>name = ''Person1'', nights_stayed = 2\<rparr>, \<lparr>name = ''Person2'', nights_stayed = 2\<rparr>] [(''Groceries'', 100)] =
     Inr [(''Person1'', 200), (''Person2'', 200)]"
proof -
  have d: "distinct (map name [\<lparr>name = ''Person1'', nights_stayed = 2\<rparr>, \<lparr>name = ''Person2'', nights_stayed = 2\<rparr>])"
    by simp
  have b: "breakdown_rows exact 300
     [\<lparr>name = ''Person1'', nights_stayed = 2\<rparr>, \<lparr>name = ''Person2'', nights_stayed = 2\<rparr>] [(''Groceries'', 100)] =
     Inr [\<lparr>row_participant = ''Person1'', row_nights_stayed = 2, accommodation_share = 150, additional_share = 50, total_owed = 200\<rparr>,
          \<lparr>row_participant = ''Person2'', row_nights_stayed = 2, accommodation_share = 150, additional_share = 50, total_owed = 200\<rparr>]"
    by (simp add: eval_defs)
  show ?thesis
    using split_agrees_with_breakdown [OF d, of exact 300 "[(''Groceries'', 100)]"]
    unfolding b by simp
qed

text \<open>
  Claim C3, as amended. The breakdown loop returns exactly one row per participant, in
  input order, and each row is computed from that participant's own entry, whether or not
  names repeat. \<open>even_split_expenses\<close> returns a dictionary with one entry per distinct
  name; its entries follow the participants one by one, in input order, when the names are
  pairwise distinct.
\<close>

theorem rows_by_position_entries_by_name:
  "(breakdown_rows ar total_cost participants_info additional_expenses = Inr rows \<longleftrightarrow>
      list_all2
        (row_of ar total_cost (length participants_info) (total_night_units participants_info)
           (num_sum ar (map snd additional_expenses)))
        participants_info rows) \<and>
   (even_split_expenses ar total_cost participants_info additional_expenses = Inr shares \<longrightarrow>
      distinct (map fst shares) \<and>
      set (map fst shares) = name ` set participants_info \<and>
      length shares = card (name ` set participants_info) \<and>
      (distinct (map name participants_info) \<longrightarrow>
         map fst shares = map name participants_info))"
proof (intro conjI impI)
  show "breakdown_rows ar total_cost participants_info additional_expenses = Inr rows \<longleftrightarrow>
      list_all2
        (row_of ar total_cost (length participants_info) (total_night_units participants_info)
           (num_sum ar (map snd additional_expenses)))
        participants_info rows"
    by (simp add: breakdown_rows_def breakdown_loop_Inr_iff)
next
  assume e: "even_split_expenses ar total_cost participants_info additional_expenses = Inr shares"
  show d: "distinct (map fst shares)" by (rule even_split_expenses_keys(1) [OF e])
  show s: "set (map fst shares) = name ` set participants_info"
    by (rule even_split_expenses_keys(2) [OF e])
  show "length shares = card (name ` set participants_info)"
    using distinct_card [OF d] s by simp
next
  assume e: "even_split_expenses ar total_cost participants_info additional_expenses = Inr shares"
    and d: "distinct (map name participants_info)"
  from e obtain cs rs where
    cs: "list_all2 (\<lambda>p c. cost_share ar total_cost (length participants_info)
           (total_night_units participants_info) (nights_stayed p) = Inr c) participants_info cs"
    and rs: "\<exists>a. list_all2 (\<lambda>c r. quantize2 ar (num_add ar c a) = Inr r) cs rs"
    and sh: "shares = zip (map name participants_info) rs"
    unfolding even_split_expenses_distinct [OF d] by blast
  from rs obtain a where "list_all2 (\<lambda>c r. quantize2 ar (num_add ar c a) = Inr r) cs rs" ..
  then have "length cs = length rs" by (rule list_all2_lengthD)
  moreover have "length participants_info = length cs" using cs by (rule list_all2_lengthD)
  ultimately have "length rs = length participants_info" by simp
  then show "map fst shares = map name participants_info"
    by (simp add: sh)
qed

theorem rows_by_position_entries_by_name_witness:
  "list_all2
     (row_of exact 100
        (length [\<lparr>name = ''A'', nights_stayed = 1\<rparr>, \<lparr>name = ''A'', nights_stayed = 3\<rparr>])
        (total_night_units [\<lparr>name = ''A'', nights_stayed = 1\<rparr>, \<lparr>name = ''A'', nights_stayed = 3\<rparr>])
        (num_sum exact (map snd [(''Food'', 20)])))
     [\<lparr>name = ''A'', nights_stayed = 1\<rparr>, \<lparr>name = ''A'', nights_stayed = 3\<rparr>]
     [\<lparr>row_participant = ''A'', row_nights_stayed = 1, accommodation_share = 25,
        additional_share = 10, total_owed = 35\<rparr>,
      \<lparr>row_participant = ''A'', row_nights_stayed = 3, accommodation_share = 75,
        additional_share = 10, total_owed = 85\<rparr>] \<and>
   even_split_expenses exact 100
     [\<lparr>name = ''A'', nights_stayed = 1\<rparr>, \<lparr>name = ''B'', nights_stayed = 3\<rparr>] [(''Food'', 20)] =
     Inr [(''A'', 35), (''B'', 85)] \<and>
   map fst [(''A'', 35::rat), (''B'', 85)] =
     map name [\<lparr>name = ''A'', nights_stayed = 1\<rparr>, \<lparr>name = ''B'', nights_stayed = 3\<rparr>]"
  (is "?l \<and> ?e \<and> ?k")
proof -
  have b: "breakdown_rows exact 100
     [\<lparr>name = ''A'', nights_stayed = 1\<rparr>, \<lparr>name = ''A'', nights_stayed = 3\<rparr>] [(''Food'', 20)] =
     Inr [\<lparr>row_participant = ''A'', row_nights_stayed = 1, accommodation_share = 25,
        additional_share = 10, total_owed = 35\<rparr>,
      \<lparr>row_participant = ''A'', row_nights_stayed = 3, accommodation_share = 75,
        additional_share = 10, total_owed = 85\<rparr>]"
    by (simp add: eval_defs)
  have e: ?e by (simp add: eval_defs)
  have d: "distinct (map name [\<lparr>name = ''A'', nights_stayed = 1\<rparr>, \<lparr>name = ''B'', nights_stayed = 3\<rparr>])"
    by simp
  have l: ?l
    by (rule iffD1 [OF conjunct1 [OF rows_by_position_entries_by_name] b])
  have k: ?k
    using conjunct2 [OF rows_by_position_entries_by_name
      [of exact 100 "[\<lparr>name = ''A'', nights_stayed = 1\<rparr>, \<lparr>name = ''B'', nights_stayed = 3\<rparr>]"
          "[(''Food'', 20)]" "[]" "[(''A'', 35), (''B'', 85)]"]] e d
    by simp
  show ?thesis using l e k by simp
qed

text \<open>
  As stated, with one entry per participant also under repeated names, the claim fails
  for \<open>even_split_expenses\<close>: two participants named \<open>A\<close> give one entry, while the
  breakdown loop gives two rows.
\<close>

theorem duplicate_names_merge_counterexample:
  "even_split_expenses exact 100
     [\<lparr>name = ''A'', nights_stayed = 1\<rparr>, \<lparr>name = ''A'', nights_stayed = 1\<rparr>] [(''Food'', 20)] =
     Inr [(''A'', 70)] \<and>
   breakdown_rows exact 100
     [\<lparr>name = ''A'', nights_stayed = 1\<rparr>, \<lparr>name = ''A'', nights_stayed = 1\<rparr>] [(''Food'', 20)] =
     Inr [\<lparr>row_participant = ''A'', row_nights_stayed = 1, accommodation_share = 50,
            additional_share = 10, total_owed = 60\<rparr>,
          \<lparr>row_participant = ''A'', row_nights_stayed = 1, accommodation_share = 50,
            additional_share = 10, total_owed = 60\<rparr>]"
  by (simp add: eval_defs)

subsection \<open>Binary64: the exponent and the rounding\<close>

lemma bitlen_rat_bounds:
  assumes "p > 0"
  shows "(2::rat) powi (bitlen p - 1) \<le> of_int p" and "of_int p < (2::rat) powi bitlen p"
proof -
  have b: "bitlen p \<ge> 1" using assms by (auto simp: bitlen_alt_def)
  from bitlen_bounds [OF assms] have 1: "2 ^ nat (bitlen p - 1) \<le> p" and 2: "p < 2 ^ nat (bitlen p)"
    by auto
  have "(2::rat) powi (bitlen p - 1) = 2 ^ nat (bitlen p - 1)"
    using b by (simp add: power_int_def)
  also have "\<dots> = of_int (2 ^ nat (bitlen p - 1))" by simp
  also have "\<dots> \<le> of_int p" using 1 by (simp only: of_int_le_iff)
  finally show "(2::rat) powi (bitlen p - 1) \<le> of_int p" .
  have "of_int p < (of_int (2 ^ nat (bitlen p)) :: rat)" using 2 by (simp only: of_int_less_iff)
  also have "\<dots> = 2 ^ nat (bitlen p)" by simp
  also have "\<dots> = (2::rat) powi bitlen p"
    using b by (simp add: power_int_def)
  finally show "of_int p < (2::rat) powi bitlen p" .
qed

lemma ilog2_bounds:
  assumes "0 < a"
  shows "2 powi ilog2 a \<le> a" and "a < 2 powi (ilog2 a + 1)"
proof -
  obtain p q where pq: "quotient_of a = (p, q)" by (cases "quotient_of a")
  have q: "q > 0" using pq by (rule quotient_of_denom_pos)
  have a: "a = of_int p / of_int q" using pq by (rule quotient_of_div)
  have p: "p > 0" using assms q unfolding a by (simp add: zero_less_divide_iff)
  define k where "k = bitlen p - bitlen q"
  note bp = bitlen_rat_bounds [OF p] and bq = bitlen_rat_bounds [OF q]
  have qpos: "(0::rat) < of_int q" using q by simp
  have lo: "2 powi (k - 1) \<le> a"
  proof -
    have "2 powi (k - 1) * of_int q \<le> (2::rat) powi (k - 1) * 2 powi bitlen q"
      using bq(2) by (simp add: less_imp_le)
    also have "\<dots> = 2 powi (bitlen p - 1)"
      by (simp add: k_def power_int_add [symmetric])
    also have "\<dots> \<le> of_int p" by (rule bp(1))
    finally show ?thesis unfolding a using qpos by (simp add: pos_le_divide_eq)
  qed
  have hi: "a < 2 powi (k + 1)"
  proof -
    have "of_int p < (2::rat) powi bitlen p" by (rule bp(2))
    also have "\<dots> = 2 powi (k + 1) * 2 powi (bitlen q - 1)"
      by (simp add: k_def power_int_add [symmetric])
    also have "\<dots> \<le> 2 powi (k + 1) * of_int q"
      using bq(1) by (simp add: mult_left_mono)
    finally show ?thesis unfolding a using qpos by (simp add: pos_divide_less_eq)
  qed
  have i: "ilog2 a = (if 2 powi k \<le> a then k else k - 1)"
    by (simp add: ilog2_def pq k_def Let_def)
  show "2 powi ilog2 a \<le> a" using lo by (simp add: i)
  show "a < 2 powi (ilog2 a + 1)" using hi by (auto simp: i not_le)
qed

lemma ilog2_unique:
  assumes "0 < a" and "2 powi k \<le> a" and "a < 2 powi (k + 1)"
  shows "ilog2 a = k"
proof -
  have "(2::rat) powi ilog2 a < 2 powi (k + 1)"
    using ilog2_bounds(1) [OF assms(1)] assms(3) by (rule le_less_trans)
  then have 1: "ilog2 a < k + 1"
    using power_int_increasing [of "k + 1" "ilog2 a" "2::rat"] by (cases "ilog2 a < k + 1") auto
  have "(2::rat) powi k < 2 powi (ilog2 a + 1)"
    using assms(2) ilog2_bounds(2) [OF assms(1)] by (rule le_less_trans)
  then have 2: "k < ilog2 a + 1"
    using power_int_increasing [of "ilog2 a + 1" k "2::rat"] by (cases "k < ilog2 a + 1") auto
  show ?thesis using 1 2 by simp
qed

lemma round_half_even_nearest:
  assumes "\<bar>y - of_int m\<bar> < 1 / 2"
  shows "round_half_even y = m"
proof -
  have "of_int m - 1 / 2 < y" and "y < of_int m + 1 / 2" using assms by linarith+
  then consider (lo) "of_int m - 1 / 2 < y" "y < of_int m" | (hi) "of_int m \<le> y" "y < of_int m + 1 / 2"
    by linarith
  then show ?thesis
  proof cases
    case lo
    have f: "\<lfloor>y\<rfloor> = m - 1"
      using lo by (intro floor_unique) auto
    show ?thesis using lo by (simp add: round_half_even_def Let_def f)
  next
    case hi
    have f: "\<lfloor>y\<rfloor> = m"
      using hi by (intro floor_unique) auto
    show ?thesis using hi by (simp add: round_half_even_def Let_def f)
  qed
qed

lemma round_half_even_le: "of_int (round_half_even y) \<le> y + 1 / 2"
proof -
  have "of_int \<lfloor>y\<rfloor> \<le> y" by simp
  moreover have "y < of_int \<lfloor>y\<rfloor> + 1" by linarith
  ultimately show ?thesis
    unfolding round_half_even_def Let_def by (auto; linarith)
qed

lemma round_f64_nearest:
  assumes "0 < x" and "2 powi k \<le> x" and "x < 2 powi (k + 1)"
    and "e = max (k - 52) (- 1074)"
    and "\<bar>x / 2 powi e - of_int m\<bar> < 1 / 2"
    and "of_int m * 2 powi e < (2::rat) ^ 1024"
  shows "round_f64 x = Finite (of_int m * 2 powi e)"
proof -
  have k: "ilog2 \<bar>x\<bar> = k" using assms(1-3) by (simp add: ilog2_unique)
  have m: "round_half_even (\<bar>x\<bar> / 2 powi e) = m"
    using assms(1,5) by (simp add: round_half_even_nearest)
  show ?thesis
    using assms(1,6) unfolding round_f64_def k m assms(4) [symmetric] Let_def
    by (simp add: not_le)
qed

lemma round_f64_3_100: "round_f64 (3 / 100) = Finite (1080863910568919 / 36028797018963968)"
  using round_f64_nearest [of "3 / 100" "-6" "-58" "8646911284551352"] by simp

lemma round_f64_half: "round_f64 (1 / 2) = Finite (1 / 2)"
  using round_f64_nearest [of "1 / 2" "-1" "-53" "4503599627370496"] by simp

lemma round_f64_two: "round_f64 2 = Finite 2"
  using round_f64_nearest [of "2" "1" "-51" "4503599627370496"] by simp

lemma round_f64_half_of_3_100: "round_f64 (1080863910568919 / 72057594037927936) = Finite (1080863910568919 / 72057594037927936)"
  using round_f64_nearest [of "1080863910568919 / 72057594037927936" "-7" "-59" "8646911284551352"] by simp

lemma round_f64_1_100: "round_f64 (1 / 100) = Finite (5764607523034235 / 576460752303423488)"
  using round_f64_nearest [of "1 / 100" "-7" "-59" "5764607523034235"] by simp

lemma round_f64_one: "round_f64 1 = Finite 1"
  using round_f64_nearest [of "1" "0" "-52" "4503599627370496"] by simp

lemma round_f64_1e26: "round_f64 (100000000000000000000000000) = Finite (100000000000000004764729344)"
  using round_f64_nearest [of "100000000000000000000000000" "86" "34" "5820766091346741"] by simp

lemma binary64_simps:
  "num_zero binary64 = Finite 0" "num_of_int binary64 = f64_of_int"
  "num_add binary64 = f64_add" "num_mul binary64 = f64_mul" "num_div binary64 = f64_div"
  "int_truediv binary64 = f64_int_truediv" "num_sum binary64 = f64_sum"
  "quantize2 binary64 = f64_quantize"
  by (simp_all add: binary64_def)

lemma round_f64_zero: "round_f64 0 = Finite 0"
  by (simp add: round_f64_def)

lemmas f64_eval = even_split_expenses_def breakdown_rows_def total_night_units_def cost_share_def
  per_person_additional_def binary64_simps f64_of_int_def f64_int_truediv_def f64_sum_def
  f64_quantize_def decimal_quantize_def round_half_up_2dp_def round_half_up_cents_def Let_def
  floor_rat_divide_numeral round_f64_zero

lemma round_half_even_ge: "y - 1 / 2 \<le> of_int (round_half_even y)"
proof -
  have "of_int \<lfloor>y\<rfloor> \<le> y" by simp
  moreover have "y < of_int \<lfloor>y\<rfloor> + 1" by linarith
  ultimately show ?thesis
    unfolding round_half_even_def Let_def by (auto; linarith)
qed

lemma round_half_even_nonneg: "0 \<le> y \<Longrightarrow> 0 \<le> round_half_even y"
proof -
  assume "0 \<le> y"
  then have "(- 1 :: rat) < of_int (round_half_even y)"
    using round_half_even_ge [of y] by linarith
  then have "- 1 < round_half_even y" by (metis of_int_less_iff of_int_minus of_int_1)
  then show ?thesis by simp
qed

text \<open>The rounded magnitude exceeds the exact one by at most half a unit in the last place.\<close>

lemma round_f64_abs_bound:
  assumes "\<bar>x\<bar> \<le> b" and "b * (1 + 1 / 2 ^ 53) + 1 / 2 ^ 1075 < 2 ^ 1024"
  shows "\<exists>q. round_f64 x = Finite q \<and> \<bar>q\<bar> \<le> b * (1 + 1 / 2 ^ 53) + 1 / 2 ^ 1075"
proof (cases "x = 0")
  case True
  have "0 \<le> b" using assms(1) by linarith
  then have "0 \<le> b * (1 + 1 / 2 ^ 53) + 1 / 2 ^ 1075" by simp
  then show ?thesis using True by (simp add: round_f64_def)
next
  case False
  define a where "a = \<bar>x\<bar>"
  define e where "e = max (ilog2 a - 52) (- 1074)"
  define m where "m = round_half_even (a / 2 powi e)"
  define r :: rat where "r = of_int m * 2 powi e"
  have a: "0 < a" using False by (simp add: a_def)
  have pe: "(0::rat) < 2 powi e" by simp
  have "(2::rat) powi e \<le> 2 powi (ilog2 a - 52) + 2 powi (- 1074)"
    unfolding e_def max_def by (auto simp: less_imp_le)
  also have "(2::rat) powi (ilog2 a - 52) = 2 powi ilog2 a / 2 ^ 52"
    by (simp add: power_int_diff)
  also have "\<dots> \<le> a / 2 ^ 52"
    using ilog2_bounds(1) [OF a] by (simp add: divide_right_mono)
  finally have e: "(2::rat) powi e \<le> a / 2 ^ 52 + 2 powi (- 1074)" by simp
  have m0: "0 \<le> m" unfolding m_def using a pe by (intro round_half_even_nonneg) simp
  then have r0: "0 \<le> r" by (simp add: r_def)
  have "of_int m \<le> a / 2 powi e + 1 / 2" unfolding m_def by (rule round_half_even_le)
  then have "r \<le> (a / 2 powi e + 1 / 2) * 2 powi e"
    unfolding r_def using pe by (simp add: mult_right_mono)
  also have "\<dots> = a + 2 powi e / 2" using pe by (simp add: field_simps)
  also have "\<dots> \<le> a + (a / 2 ^ 52 + 2 powi (- 1074)) / 2" using e by simp
  also have "\<dots> = a * (1 + 1 / 2 ^ 53) + 1 / 2 ^ 1075"
    by (simp add: field_simps power_int_minus)
  also have "\<dots> \<le> b * (1 + 1 / 2 ^ 53) + 1 / 2 ^ 1075"
    using assms(1) by (simp add: a_def mult_right_mono)
  finally have rb: "r \<le> b * (1 + 1 / 2 ^ 53) + 1 / 2 ^ 1075" .
  then have lt: "r < 2 ^ 1024" using assms(2) by linarith
  have "round_f64 x = Finite (sgn x * r)"
    using False lt unfolding round_f64_def a_def [symmetric] e_def [symmetric] Let_def
      m_def [symmetric] r_def [symmetric]
    by (simp add: not_le)
  moreover have "\<bar>sgn x * r\<bar> = r" using False r0 by (simp add: abs_mult)
  ultimately show ?thesis using rb by simp
qed

text \<open>A magnitude of at least one does not round to zero.\<close>

lemma round_f64_pos:
  assumes "1 \<le> x" and "x \<le> 2 ^ 1023"
  shows "\<exists>q. round_f64 x = Finite q \<and> 0 < q"
proof -
  define e where "e = max (ilog2 x - 52) (- 1074)"
  define m where "m = round_half_even (x / 2 powi e)"
  define r :: rat where "r = of_int m * 2 powi e"
  have x: "0 < x" using assms(1) by linarith
  have ax: "\<bar>x\<bar> = x" using x by simp
  have "(2::rat) powi 0 \<le> x" using assms(1) by simp
  have i0: "0 \<le> ilog2 x"
  proof (rule ccontr)
    assume "\<not> 0 \<le> ilog2 x"
    then have "ilog2 x + 1 \<le> 0" by simp
    then have "(2::rat) powi (ilog2 x + 1) \<le> 2 powi 0"
      by (intro power_int_increasing) simp_all
    then show False using ilog2_bounds(2) [OF x] assms(1) by simp
  qed
  then have e: "e = ilog2 x - 52" by (simp add: e_def)
  have pe: "(0::rat) < 2 powi e" by simp
  have "(2::rat) ^ 52 = 2 powi ilog2 x / 2 powi e"
    by (simp add: e power_int_diff)
  also have "\<dots> \<le> x / 2 powi e"
    using ilog2_bounds(1) [OF x] pe by (simp add: divide_right_mono)
  finally have "(2::rat) ^ 52 \<le> x / 2 powi e" .
  moreover have "(1::rat) \<le> 2 ^ 52" by simp
  ultimately have "1 \<le> x / 2 powi e" by (rule order_trans [rotated])
  then have "(0::rat) < of_int m"
    unfolding m_def using round_half_even_ge [of "x / 2 powi e"] by linarith
  then have r0: "0 < r" unfolding r_def using pe by simp
  have "\<bar>x\<bar> \<le> 2 ^ 1023" using assms(2) ax by simp
  moreover have "(2::rat) ^ 1023 * (1 + 1 / 2 ^ 53) + 1 / 2 ^ 1075 < 2 ^ 1024" by simp
  ultimately obtain q where q: "round_f64 x = Finite q"
    using round_f64_abs_bound [of x "2 ^ 1023"] by blast
  have "round_f64 x = (if r \<ge> 2 ^ 1024 then PlusInf else Finite r)"
    using x unfolding round_f64_def ax e_def [symmetric] Let_def m_def [symmetric] r_def [symmetric]
    by simp
  then have "q = r" using q by (auto split: if_splits)
  then show ?thesis using q r0 by simp
qed

subsection \<open>Binary64: which errors can be raised\<close>

lemma f64_of_int_pos:
  assumes "0 < n" and "n < 2 ^ 63"
  shows "\<exists>q. f64_of_int (int n) = Inr (Finite q) \<and> 0 < q"
proof -
  have 1: "(1::rat) \<le> of_int (int n)" using assms(1) by simp
  have "(of_int (int n) :: rat) \<le> of_int (2 ^ 63)"
    using assms(2) by (simp only: of_int_le_iff) simp
  also have "\<dots> \<le> (2::rat) ^ 1023" by simp
  finally have 2: "(of_int (int n) :: rat) \<le> 2 ^ 1023" .
  from round_f64_pos [OF 1 2] show ?thesis by (auto simp: f64_of_int_def)
qed

lemma f64_div_nonzero: "q \<noteq> 0 \<Longrightarrow> \<exists>r. f64_div a (Finite q) = Inr r"
  by (cases a) simp_all

lemma f64_int_truediv_unit:
  assumes "0 \<le> k" and "k \<le> t" and "0 < t"
  shows "\<exists>q. f64_int_truediv k t = Inr (Finite q)"
proof -
  have "\<bar>(of_int k :: rat) / of_int t\<bar> \<le> 1" using assms by simp
  moreover have "(1::rat) * (1 + 1 / 2 ^ 53) + 1 / 2 ^ 1075 < 2 ^ 1024" by simp
  ultimately obtain q where "round_f64 (of_int k / of_int t) = Finite q"
    using round_f64_abs_bound [of "of_int k / of_int t" 1] by blast
  then show ?thesis using assms(3) by (simp add: f64_int_truediv_def)
qed

lemma cost_share_binary64_returns:
  assumes "n < 2 ^ 63" and "0 \<le> k" and "k \<le> t"
  shows "\<exists>c. cost_share binary64 tc n t k = Inr c"
proof (cases "t = 0")
  case True
  show ?thesis
  proof (cases "n > 0")
    case False
    then show ?thesis using True by (simp add: cost_share_def)
  next
    case n: True
    from f64_of_int_pos [OF n assms(1)] obtain q where
      q: "f64_of_int (int n) = Inr (Finite q)" and "0 < q" by blast
    then have "\<exists>r. f64_div tc (Finite q) = Inr r" by (intro f64_div_nonzero) simp
    then show ?thesis using True n q by (simp add: cost_share_def binary64_simps)
  qed
next
  case False
  then have "0 < t" using assms(2,3) by simp
  from f64_int_truediv_unit [OF assms(2,3) this] obtain q where
    "f64_int_truediv k t = Inr (Finite q)" ..
  then show ?thesis using False by (simp add: cost_share_def binary64_simps)
qed

lemma per_person_additional_binary64_returns:
  assumes "n < 2 ^ 63"
  shows "\<exists>a. per_person_additional binary64 s n = Inr a"
proof (cases "n > 0")
  case False
  then show ?thesis by (simp add: per_person_additional_def)
next
  case n: True
  from f64_of_int_pos [OF n assms] obtain q where
    q: "f64_of_int (int n) = Inr (Finite q)" and "0 < q" by blast
  then have "\<exists>r. f64_div s (Finite q) = Inr r" by (intro f64_div_nonzero) simp
  then show ?thesis using n q by (simp add: per_person_additional_def binary64_simps)
qed

lemma nights_le_total_night_units:
  assumes "\<forall>p\<in>set ps. nights_stayed p \<ge> 0" and "p \<in> set ps"
  shows "nights_stayed p \<le> total_night_units ps"
proof -
  have "total_night_units ps = sum_list (map nights_stayed ps)"
    using assms(1) by (simp add: total_night_units_nonneg list_all_iff)
  moreover have "nights_stayed p \<le> sum_list (map nights_stayed ps)"
    using assms by (intro member_le_sum_list) auto
  ultimately show ?thesis by simp
qed

lemma f64_quantize_error: "f64_quantize x = Inl e \<Longrightarrow> e = InvalidOperation"
  by (cases x) (auto simp: f64_quantize_def decimal_quantize_def split: if_splits sum.splits)

lemma breakdown_loop_error:
  assumes "\<forall>p\<in>set qs. \<exists>c. cost_share ar tc n t (nights_stayed p) = Inr c"
    and "\<exists>a. per_person_additional ar s n = Inr a"
    and "\<And>x e. quantize2 ar x = Inl e \<Longrightarrow> e = InvalidOperation"
    and "breakdown_loop ar tc n t s qs = Inl e"
  shows "e = InvalidOperation"
  using assms(1,4)
proof (induction qs)
  case Nil
  then show ?case by simp
next
  case (Cons p qs)
  from Cons.prems(1) obtain c where c: "cost_share ar tc n t (nights_stayed p) = Inr c" by auto
  from assms(2) obtain a where a: "per_person_additional ar s n = Inr a" ..
  show ?case
  proof (cases "quantize2 ar (num_add ar c a)")
    case (Inl e')
    then show ?thesis using Cons.prems(2) c a assms(3) by simp
  next
    case (Inr r)
    then have "breakdown_loop ar tc n t s qs = Inl e"
      using Cons.prems(2) c a by (simp split: sum.splits)
    then show ?thesis using Cons.IH Cons.prems(1) by simp
  qed
qed

lemma assign_cost_shares_returns:
  assumes "\<forall>p\<in>set qs. \<exists>c. cost_share ar tc n t (nights_stayed p) = Inr c"
  shows "\<exists>res. assign_cost_shares ar tc n t qs sh = Inr res"
  using assms
proof (induction qs arbitrary: sh)
  case Nil
  then show ?case by simp
next
  case (Cons p qs)
  from Cons.prems obtain c where c: "cost_share ar tc n t (nights_stayed p) = Inr c" by auto
  show ?case using Cons.IH [of "AList.update (name p) c sh"] Cons.prems c by simp
qed

lemma add_additional_returns:
  assumes "name ` set qs \<subseteq> fst ` set sh"
  shows "\<exists>res. add_additional ar a qs sh = Inr res"
  using assms
proof (induction qs arbitrary: sh)
  case Nil
  then show ?case by simp
next
  case (Cons p qs)
  have "name p \<in> fst ` set sh" using Cons.prems by simp
  then obtain v where v: "map_of sh (name p) = Some v"
    by (metis domD dom_map_of_conv_image_fst)
  have "name ` set qs \<subseteq> fst ` set (AList.update (name p) (num_add ar v a) sh)"
    using Cons.prems by (auto simp: dom_update)
  from Cons.IH [OF this] show ?case using v by simp
qed

lemma round_shares_error:
  assumes "\<And>x e. quantize2 ar x = Inl e \<Longrightarrow> e = InvalidOperation"
    and "round_shares ar items sh = Inl e"
  shows "e = InvalidOperation"
  using assms(2)
proof (induction items arbitrary: sh)
  case Nil
  then show ?case by simp
next
  case (Cons kv items)
  obtain k v where kv: "kv = (k, v)" by (cases kv)
  show ?case
  proof (cases "quantize2 ar v")
    case (Inl e')
    then show ?thesis using Cons.prems assms(1) by (simp add: kv)
  next
    case (Inr r)
    then show ?thesis using Cons.prems Cons.IH by (simp add: kv)
  qed
qed

lemma even_split_expenses_error:
  assumes "\<forall>p\<in>set ps. \<exists>c. cost_share ar tc (length ps) (total_night_units ps) (nights_stayed p) = Inr c"
    and "\<exists>a. per_person_additional ar (num_sum ar (map snd ex)) (length ps) = Inr a"
    and "\<And>x e. quantize2 ar x = Inl e \<Longrightarrow> e = InvalidOperation"
    and "even_split_expenses ar tc ps ex = Inl e"
  shows "e = InvalidOperation"
proof -
  from assign_cost_shares_returns [OF assms(1), of "[]"] obtain sh where
    1: "assign_cost_shares ar tc (length ps) (total_night_units ps) ps [] = Inr sh" ..
  from assms(2) obtain a where
    2: "per_person_additional ar (num_sum ar (map snd ex)) (length ps) = Inr a" ..
  have "name ` set ps \<subseteq> fst ` set sh" using assign_cost_shares_keys [OF 1] by simp
  from add_additional_returns [OF this, of ar a] obtain sh' where
    3: "add_additional ar a ps sh = Inr sh'" ..
  have "round_shares ar sh' sh' = Inl e"
    using assms(4) by (simp add: even_split_expenses_def 1 2 3)
  then show ?thesis using assms(3) round_shares_error by blast
qed

lemma cost_shares_binary64_return:
  assumes "\<forall>p\<in>set ps. nights_stayed p \<ge> 0" and "length ps < 2 ^ 63"
  shows "\<forall>p\<in>set ps. \<exists>c. cost_share binary64 tc (length ps) (total_night_units ps)
           (nights_stayed p) = Inr c"
proof
  fix p assume p: "p \<in> set ps"
  have "0 \<le> nights_stayed p" using assms(1) p by simp
  moreover have "nights_stayed p \<le> total_night_units ps"
    using assms(1) p by (rule nights_le_total_night_units)
  ultimately show "\<exists>c. cost_share binary64 tc (length ps) (total_night_units ps)
           (nights_stayed p) = Inr c"
    using assms(2) by (intro cost_share_binary64_returns)
qed

lemma quantize2_binary64_error: "quantize2 binary64 x = Inl e \<Longrightarrow> e = InvalidOperation"
  by (simp add: binary64_simps f64_quantize_error)

subsection \<open>Binary64: amounts that stay within the digits of the decimal context\<close>

lemma round_f64_le_bound:
  assumes "\<bar>x\<bar> \<le> b" and "1 \<le> b" and "b \<le> 10 ^ 30"
  shows "\<exists>q. round_f64 x = Finite q \<and> \<bar>q\<bar> \<le> b * (21 / 20)"
proof -
  have 1: "b * (1 + 1 / 2 ^ 53) + 1 / 2 ^ 1075 \<le> b * (21 / 20)"
  proof -
    have "(1::rat) / 2 ^ 1075 \<le> b * (1 / 2 ^ 1075)" using assms(2) by simp
    then have "b * (1 + 1 / 2 ^ 53) + 1 / 2 ^ 1075 \<le> b * (1 + 1 / 2 ^ 53 + 1 / 2 ^ 1075)"
      by (simp add: algebra_simps)
    also have "\<dots> \<le> b * (21 / 20)"
      using assms(2) by (intro mult_left_mono) simp_all
    finally show ?thesis .
  qed
  have "b * (21 / 20) \<le> 10 ^ 30 * (21 / 20)" using assms(3) by simp
  also have "\<dots> < (2::rat) ^ 1024" by simp
  finally have 2: "b * (1 + 1 / 2 ^ 53) + 1 / 2 ^ 1075 < 2 ^ 1024" using 1 by linarith
  from round_f64_abs_bound [OF assms(1) 2] 1 show ?thesis by force
qed

lemma round_f64_ge_half:
  assumes "1 \<le> x" and "x \<le> 2 ^ 1023"
  shows "\<exists>q. round_f64 x = Finite q \<and> 1 / 2 \<le> q"
proof -
  define e where "e = max (ilog2 x - 52) (- 1074)"
  define m where "m = round_half_even (x / 2 powi e)"
  define r :: rat where "r = of_int m * 2 powi e"
  have x: "0 < x" using assms(1) by linarith
  have ax: "\<bar>x\<bar> = x" using x by simp
  have pe: "(0::rat) < 2 powi e" by simp
  have i0: "0 \<le> ilog2 x"
  proof (rule ccontr)
    assume "\<not> 0 \<le> ilog2 x"
    then have "ilog2 x + 1 \<le> 0" by simp
    then have "(2::rat) powi (ilog2 x + 1) \<le> 2 powi 0"
      by (intro power_int_increasing) simp_all
    then show False using ilog2_bounds(2) [OF x] assms(1) by simp
  qed
  then have e: "e = ilog2 x - 52" by (simp add: e_def)
  have "(2::rat) ^ 52 = 2 powi ilog2 x / 2 powi e"
    by (simp add: e power_int_diff)
  also have "\<dots> \<le> x / 2 powi e"
    using ilog2_bounds(1) [OF x] pe by (simp add: divide_right_mono)
  finally have "(2::rat) ^ 52 \<le> x / 2 powi e" .
  moreover have "(1::rat) \<le> 2 ^ 52" by simp
  ultimately have y1: "1 \<le> x / 2 powi e" by (rule order_trans [rotated])
  have "\<And>y::rat. 1 \<le> y \<Longrightarrow> y / 2 \<le> y - 1 / 2" by linarith
  from this [OF y1] have "x / 2 powi e / 2 \<le> x / 2 powi e - 1 / 2" .
  also have "\<dots> \<le> of_int m" unfolding m_def by (rule round_half_even_ge)
  finally have "x / 2 powi e / 2 * 2 powi e \<le> r"
    unfolding r_def using pe by (simp only: mult_le_cancel_right_pos)
  then have "x / 2 \<le> r" using pe by (simp add: field_simps)
  then have r: "1 / 2 \<le> r" using assms(1) by linarith
  have "\<bar>x\<bar> \<le> 2 ^ 1023" using assms(2) ax by simp
  moreover have "(2::rat) ^ 1023 * (1 + 1 / 2 ^ 53) + 1 / 2 ^ 1075 < 2 ^ 1024" by simp
  ultimately obtain q where q: "round_f64 x = Finite q"
    using round_f64_abs_bound [of x "2 ^ 1023"] by blast
  have "round_f64 x = (if r \<ge> 2 ^ 1024 then PlusInf else Finite r)"
    using x unfolding round_f64_def ax e_def [symmetric] Let_def m_def [symmetric] r_def [symmetric]
    by simp
  then have "q = r" using q by (auto split: if_splits)
  then show ?thesis using q r by simp
qed

lemma f64_of_int_ge_half:
  assumes "0 < n" and "n < 2 ^ 63"
  shows "\<exists>q. f64_of_int (int n) = Inr (Finite q) \<and> 1 / 2 \<le> q"
proof -
  have 1: "(1::rat) \<le> of_int (int n)" using assms(1) by simp
  have "(of_int (int n) :: rat) \<le> of_int (2 ^ 63)"
    using assms(2) by (simp only: of_int_le_iff) simp
  also have "\<dots> \<le> (2::rat) ^ 1023" by simp
  finally have 2: "(of_int (int n) :: rat) \<le> 2 ^ 1023" .
  from round_f64_ge_half [OF 1 2] show ?thesis by (auto simp: f64_of_int_def)
qed

lemma f64_div_int_bound:
  assumes "0 < n" and "n < 2 ^ 63" and "\<bar>c\<bar> \<le> 10 ^ 25"
  shows "\<exists>q v. f64_of_int (int n) = Inr q \<and> f64_div (Finite c) q = Inr (Finite v) \<and>
           \<bar>v\<bar> \<le> 21 * 10 ^ 24"
proof -
  from f64_of_int_ge_half [OF assms(1,2)] obtain q where
    q: "f64_of_int (int n) = Inr (Finite q)" and h: "1 / 2 \<le> q" by blast
  have q0: "0 < q" using h by linarith
  have "\<bar>c / q\<bar> = \<bar>c\<bar> / q" using q0 by simp
  also have "\<dots> \<le> \<bar>c\<bar> / (1 / 2)" using h by (intro divide_left_mono) simp_all
  also have "\<dots> \<le> 2 * 10 ^ 25" using assms(3) by simp
  finally have "\<bar>c / q\<bar> \<le> 2 * 10 ^ 25" .
  from round_f64_le_bound [OF this] obtain v where
    "round_f64 (c / q) = Finite v" and "\<bar>v\<bar> \<le> 2 * 10 ^ 25 * (21 / 20)" by auto
  then show ?thesis using q q0 by auto
qed

lemma cost_share_binary64_bound:
  assumes "n < 2 ^ 63" and "0 \<le> k" and "k \<le> t" and "\<bar>c\<bar> \<le> 10 ^ 25"
  shows "\<exists>v. cost_share binary64 (Finite c) n t k = Inr (Finite v) \<and> \<bar>v\<bar> \<le> 21 * 10 ^ 24"
proof (cases "t = 0")
  case True
  show ?thesis
  proof (cases "n > 0")
    case False
    then show ?thesis using True by (simp add: cost_share_def binary64_simps)
  next
    case n: True
    from f64_div_int_bound [OF n assms(1,4)] show ?thesis
      using True n by (auto simp: cost_share_def binary64_simps)
  qed
next
  case False
  then have t: "0 < t" using assms(2,3) by simp
  have "\<bar>(of_int k :: rat) / of_int t\<bar> \<le> 1" using assms(2,3) t by simp
  from round_f64_le_bound [OF this] obtain u where
    u: "round_f64 (of_int k / of_int t) = Finite u" and ub: "\<bar>u\<bar> \<le> 21 / 20" by auto
  have "\<bar>c * u\<bar> = \<bar>c\<bar> * \<bar>u\<bar>" by (rule abs_mult)
  also have "\<dots> \<le> 10 ^ 25 * (21 / 20)" using assms(4) ub by (intro mult_mono) simp_all
  also have "\<dots> \<le> 2 * 10 ^ 25" by simp
  finally have "\<bar>c * u\<bar> \<le> 2 * 10 ^ 25" .
  from round_f64_le_bound [OF this] obtain v where
    "round_f64 (c * u) = Finite v" and "\<bar>v\<bar> \<le> 2 * 10 ^ 25 * (21 / 20)" by auto
  then show ?thesis
    using False u by (simp add: cost_share_def binary64_simps f64_int_truediv_def)
qed

lemma per_person_additional_binary64_bound:
  assumes "n < 2 ^ 63" and "\<bar>s\<bar> \<le> 10 ^ 25"
  shows "\<exists>a. per_person_additional binary64 (Finite s) n = Inr (Finite a) \<and>
           \<bar>a\<bar> \<le> 21 * 10 ^ 24"
proof (cases "n > 0")
  case False
  then show ?thesis by (simp add: per_person_additional_def binary64_simps)
next
  case n: True
  from f64_div_int_bound [OF n assms] show ?thesis
    using n by (auto simp: per_person_additional_def binary64_simps)
qed

lemma round_half_up_cents_le: "of_int (round_half_up_cents x) \<le> \<bar>x\<bar> * 100 + 1"
proof -
  have "of_int \<lfloor>\<bar>x\<bar> * 100\<rfloor> \<le> \<bar>x\<bar> * 100" by simp
  then show ?thesis unfolding round_half_up_cents_def Let_def by (auto; linarith)
qed

lemma f64_quantize_returns:
  assumes "\<bar>v\<bar> \<le> 5 * 10 ^ 25"
  shows "\<exists>r. f64_quantize (Finite v) = Inr r"
proof -
  have "(of_int (round_half_up_cents v) :: rat) \<le> \<bar>v\<bar> * 100 + 1"
    by (rule round_half_up_cents_le)
  also have "\<dots> \<le> 5 * 10 ^ 25 * 100 + 1" using assms by simp
  also have "\<dots> < of_int (10 ^ 28)" by simp
  finally have "round_half_up_cents v < 10 ^ 28" by (simp only: of_int_less_iff)
  then show ?thesis by (simp add: f64_quantize_def decimal_quantize_def)
qed

lemma row_of_binary64_exists:
  assumes "n < 2 ^ 63" and "0 \<le> nights_stayed p" and "nights_stayed p \<le> t"
    and "\<bar>c\<bar> \<le> 10 ^ 25" and "\<bar>s\<bar> \<le> 10 ^ 25"
  shows "\<exists>r. row_of binary64 (Finite c) n t (Finite s) p r"
proof -
  from cost_share_binary64_bound [OF assms(1-4)] obtain v where
    v: "cost_share binary64 (Finite c) n t (nights_stayed p) = Inr (Finite v)"
    and vb: "\<bar>v\<bar> \<le> 21 * 10 ^ 24" by blast
  from per_person_additional_binary64_bound [OF assms(1,5)] obtain a where
    a: "per_person_additional binary64 (Finite s) n = Inr (Finite a)"
    and ab: "\<bar>a\<bar> \<le> 21 * 10 ^ 24" by blast
  have "\<bar>v + a\<bar> \<le> 42 * 10 ^ 24" using vb ab by linarith
  from round_f64_le_bound [OF this] obtain w where
    w: "round_f64 (v + a) = Finite w" and "\<bar>w\<bar> \<le> 42 * 10 ^ 24 * (21 / 20)" by auto
  then have "\<bar>w\<bar> \<le> 5 * 10 ^ 25" by simp
  from f64_quantize_returns [OF this] obtain r where r: "f64_quantize (Finite w) = Inr r" ..
  have "row_of binary64 (Finite c) n t (Finite s) p
          \<lparr>row_participant = name p, row_nights_stayed = nights_stayed p,
           accommodation_share = Finite v, additional_share = Finite a, total_owed = r\<rparr>"
    by (simp add: row_of_def v a binary64_simps w r)
  then show ?thesis ..
qed

lemma rows_exist:
  assumes "\<forall>p\<in>set ps. \<exists>r. R p r"
  shows "\<exists>rows. list_all2 R ps rows"
  using assms
proof (induction ps)
  case Nil
  then show ?case by simp
next
  case (Cons p ps)
  then obtain r rows where "R p r" and "list_all2 R ps rows" by auto
  then have "list_all2 R (p # ps) (r # rows)" by simp
  then show ?case ..
qed

lemma even_split_of_rows:
  assumes "distinct (map name ps)"
    and "list_all2 (row_of ar tc (length ps) (total_night_units ps) (num_sum ar (map snd ex))) ps rows"
  shows "even_split_expenses ar tc ps ex = Inr (map (\<lambda>r. (row_participant r, total_owed r)) rows)"
proof -
  let ?n = "length ps" and ?t = "total_night_units ps" and ?s = "num_sum ar (map snd ex)"
  obtain a where a: "per_person_additional ar ?s ?n = Inr a"
  proof (cases "ps = []")
    case True
    then show ?thesis using that by (simp add: per_person_additional_empty)
  next
    case False
    then show ?thesis using split_of_rows(4) [OF assms(2)] that by blast
  qed
  have "even_split_expenses ar tc ps ex = Inr (zip (map name ps) (map total_owed rows))"
    unfolding even_split_expenses_distinct [OF assms(1)]
    by (rule exI [of _ "map accommodation_share rows"], rule exI [of _ a],
        rule exI [of _ "map total_owed rows"])
       (simp add: split_of_rows(1) [OF assms(2)] split_of_rows(2) [OF assms(2) a] a)
  then show ?thesis using split_of_rows(3) [OF assms(2)] by simp
qed

lemma splitter_returns_binary64:
  assumes "\<forall>p\<in>set ps. nights_stayed p \<ge> 0" and "length ps < 2 ^ 63"
    and "\<bar>c\<bar> \<le> 10 ^ 25" and "f64_sum (map snd ex) = Finite s" and "\<bar>s\<bar> \<le> 10 ^ 25"
  shows "\<exists>rows. breakdown_rows binary64 (Finite c) ps ex = Inr rows"
    and "distinct (map name ps) \<Longrightarrow> \<exists>shares. even_split_expenses binary64 (Finite c) ps ex = Inr shares"
proof -
  have "\<forall>p\<in>set ps. \<exists>r. row_of binary64 (Finite c) (length ps) (total_night_units ps) (Finite s) p r"
  proof
    fix p assume p: "p \<in> set ps"
    have "0 \<le> nights_stayed p" using assms(1) p by simp
    moreover have "nights_stayed p \<le> total_night_units ps"
      using assms(1) p by (rule nights_le_total_night_units)
    ultimately show "\<exists>r. row_of binary64 (Finite c) (length ps) (total_night_units ps) (Finite s) p r"
      using assms(2,3,5) by (intro row_of_binary64_exists)
  qed
  from rows_exist [OF this] obtain rows where
    rows: "list_all2 (row_of binary64 (Finite c) (length ps) (total_night_units ps) (Finite s)) ps rows" ..
  then have l: "list_all2 (row_of binary64 (Finite c) (length ps) (total_night_units ps)
      (num_sum binary64 (map snd ex))) ps rows"
    by (simp add: binary64_simps assms(4))
  then have "breakdown_rows binary64 (Finite c) ps ex = Inr rows"
    by (simp add: breakdown_rows_def breakdown_loop_Inr_iff)
  then show "\<exists>rows. breakdown_rows binary64 (Finite c) ps ex = Inr rows" ..
  assume "distinct (map name ps)"
  from even_split_of_rows [OF this l]
  show "\<exists>shares. even_split_expenses binary64 (Finite c) ps ex = Inr shares" ..
qed

text \<open>
  Claim C5, as amended. With an empty participant list both computations return an empty
  result. With no negative nights (a Python list has fewer than \<open>2^63\<close> items), every
  division is guarded: no \<open>ZeroDivisionError\<close>, \<open>OverflowError\<close> or \<open>KeyError\<close> can be
  raised, and the one error left is \<open>InvalidOperation\<close>, raised by \<open>quantize\<close> in the last
  step. When the
  total cost and the sum of the expenses are finite and at most \<open>10^25\<close> in magnitude, the
  breakdown loop returns, and so does \<open>even_split_expenses\<close> when the names are pairwise
  distinct.
\<close>

theorem splitter_total_up_to_quantize:
  assumes "\<forall>p\<in>set participants_info. nights_stayed p \<ge> 0"
    and "length participants_info < 2 ^ 63"
  shows "even_split_expenses binary64 total_cost [] additional_expenses = Inr [] \<and>
         breakdown_rows binary64 total_cost [] additional_expenses = Inr [] \<and>
         (\<forall>e. even_split_expenses binary64 total_cost participants_info additional_expenses = Inl e
              \<longrightarrow> e = InvalidOperation) \<and>
         (\<forall>e. breakdown_rows binary64 total_cost participants_info additional_expenses = Inl e
              \<longrightarrow> e = InvalidOperation) \<and>
         (\<forall>c s. total_cost = Finite c \<and> \<bar>c\<bar> \<le> 10 ^ 25 \<and>
                f64_sum (map snd additional_expenses) = Finite s \<and> \<bar>s\<bar> \<le> 10 ^ 25 \<longrightarrow>
            (\<exists>rows. breakdown_rows binary64 total_cost participants_info additional_expenses =
               Inr rows) \<and>
            (distinct (map name participants_info) \<longrightarrow>
               (\<exists>shares. even_split_expenses binary64 total_cost participants_info
                  additional_expenses = Inr shares)))"
proof (intro conjI allI impI)
  show "even_split_expenses binary64 total_cost [] additional_expenses = Inr []"
    by (simp add: even_split_expenses_def per_person_additional_def)
  show "breakdown_rows binary64 total_cost [] additional_expenses = Inr []"
    by (simp add: breakdown_rows_def)
next
  fix e
  assume "even_split_expenses binary64 total_cost participants_info additional_expenses = Inl e"
  then show "e = InvalidOperation"
    using cost_shares_binary64_return [OF assms]
      per_person_additional_binary64_returns [OF assms(2)] quantize2_binary64_error
    by (rule even_split_expenses_error [rotated 3])
next
  fix e
  assume "breakdown_rows binary64 total_cost participants_info additional_expenses = Inl e"
  then have "breakdown_loop binary64 total_cost (length participants_info)
      (total_night_units participants_info) (num_sum binary64 (map snd additional_expenses))
      participants_info = Inl e"
    by (simp add: breakdown_rows_def)
  then show "e = InvalidOperation"
    using cost_shares_binary64_return [OF assms]
      per_person_additional_binary64_returns [OF assms(2)] quantize2_binary64_error
    by (rule breakdown_loop_error [rotated 3])
next
  fix c s
  assume b: "total_cost = Finite c \<and> \<bar>c\<bar> \<le> 10 ^ 25 \<and>
    f64_sum (map snd additional_expenses) = Finite s \<and> \<bar>s\<bar> \<le> 10 ^ 25"
  then show "\<exists>rows. breakdown_rows binary64 total_cost participants_info additional_expenses =
      Inr rows"
    using splitter_returns_binary64(1) [OF assms, of c additional_expenses s] by simp
next
  fix c s
  assume b: "total_cost = Finite c \<and> \<bar>c\<bar> \<le> 10 ^ 25 \<and>
    f64_sum (map snd additional_expenses) = Finite s \<and> \<bar>s\<bar> \<le> 10 ^ 25"
    and d: "distinct (map name participants_info)"
  then show "\<exists>shares. even_split_expenses binary64 total_cost participants_info
      additional_expenses = Inr shares"
    using splitter_returns_binary64(2) [OF assms, of c additional_expenses s] by simp
qed

lemma round_f64_100: "round_f64 100 = Finite 100"
  using round_f64_nearest [of "100" "6" "-46" "7036874417766400"] by simp

theorem splitter_total_up_to_quantize_witness:
  "(\<exists>rows. breakdown_rows binary64 (Finite 300)
      [\<lparr>name = ''Person1'', nights_stayed = 2\<rparr>, \<lparr>name = ''Person2'', nights_stayed = 2\<rparr>]
      [(''Groceries'', Finite 100)] = Inr rows) \<and>
   (\<exists>shares. even_split_expenses binary64 (Finite 300)
      [\<lparr>name = ''Person1'', nights_stayed = 2\<rparr>, \<lparr>name = ''Person2'', nights_stayed = 2\<rparr>]
      [(''Groceries'', Finite 100)] = Inr shares)"
proof -
  have h1: "\<forall>p\<in>set [\<lparr>name = ''Person1'', nights_stayed = 2\<rparr>,
      \<lparr>name = ''Person2'', nights_stayed = 2\<rparr>]. nights_stayed p \<ge> 0"
    by simp
  have h2: "length [\<lparr>name = ''Person1'', nights_stayed = 2\<rparr>,
      \<lparr>name = ''Person2'', nights_stayed = 2\<rparr>] < 2 ^ 63"
    by simp
  have h3: "f64_sum (map snd [(''Groceries'', Finite 100)]) = Finite 100"
    by (simp add: f64_sum_def round_f64_100)
  have h4: "distinct (map name [\<lparr>name = ''Person1'', nights_stayed = 2\<rparr>,
      \<lparr>name = ''Person2'', nights_stayed = 2\<rparr>])"
    by simp
  show ?thesis
    using splitter_total_up_to_quantize [OF h1 h2, of "Finite 300" "[(''Groceries'', Finite 100)]"]
      h3 h4
    by simp
qed

text \<open>
  As stated, with no error reachable on the documented domain, the claim fails: a total
  cost of \<open>1e26\<close> for one participant makes \<open>quantize\<close> raise \<open>InvalidOperation\<close>, since
  the rounded amount needs more than 28 digits.
\<close>

theorem quantize_overflow_counterexample:
  "even_split_expenses binary64 (round_f64 (10 ^ 26)) [\<lparr>name = ''A'', nights_stayed = 1\<rparr>] [] =
     Inl InvalidOperation \<and>
   breakdown_rows binary64 (round_f64 (10 ^ 26)) [\<lparr>name = ''A'', nights_stayed = 1\<rparr>] [] =
     Inl InvalidOperation"
  using round_f64_1e26
  by (simp add: f64_eval round_f64_one
      round_f64_nearest [of "100000000000000004764729344" "86" "34" "5820766091346741"])

text \<open>
  Claim C1. The claim asks for \<open>0.015\<close> to become \<open>0.02\<close>. With a total cost of \<open>0.03\<close>,
  two participants of two nights each and no expenses, each raw amount is the float
  \<open>0.03 * 0.5\<close>, which lies below \<open>0.015\<close>; \<open>Decimal\<close> of that float rounds to \<open>0.01\<close>.
  In exact arithmetic the same input gives \<open>0.02\<close>.
\<close>

theorem half_up_boundary_misrounded:
  "even_split_expenses binary64 (round_f64 (3 / 100))
     [\<lparr>name = ''Person1'', nights_stayed = 2\<rparr>, \<lparr>name = ''Person2'', nights_stayed = 2\<rparr>] [] =
     Inr [(''Person1'', round_f64 (1 / 100)), (''Person2'', round_f64 (1 / 100))] \<and>
   map total_owed (projr (breakdown_rows binary64 (round_f64 (3 / 100))
     [\<lparr>name = ''Person1'', nights_stayed = 2\<rparr>, \<lparr>name = ''Person2'', nights_stayed = 2\<rparr>] [])) =
     [round_f64 (1 / 100), round_f64 (1 / 100)] \<and>
   even_split_expenses exact (3 / 100)
     [\<lparr>name = ''Person1'', nights_stayed = 2\<rparr>, \<lparr>name = ''Person2'', nights_stayed = 2\<rparr>] [] =
     Inr [(''Person1'', 2 / 100), (''Person2'', 2 / 100)]"
proof (intro conjI)
  show "even_split_expenses binary64 (round_f64 (3 / 100))
     [\<lparr>name = ''Person1'', nights_stayed = 2\<rparr>, \<lparr>name = ''Person2'', nights_stayed = 2\<rparr>] [] =
     Inr [(''Person1'', round_f64 (1 / 100)), (''Person2'', round_f64 (1 / 100))]"
    by (simp add: f64_eval round_f64_3_100 round_f64_half round_f64_two round_f64_half_of_3_100
        round_f64_1_100)
  show "map total_owed (projr (breakdown_rows binary64 (round_f64 (3 / 100))
     [\<lparr>name = ''Person1'', nights_stayed = 2\<rparr>, \<lparr>name = ''Person2'', nights_stayed = 2\<rparr>] [])) =
     [round_f64 (1 / 100), round_f64 (1 / 100)]"
    by (simp add: f64_eval round_f64_3_100 round_f64_half round_f64_two round_f64_half_of_3_100
        round_f64_1_100)
  show "even_split_expenses exact (3 / 100)
     [\<lparr>name = ''Person1'', nights_stayed = 2\<rparr>, \<lparr>name = ''Person2'', nights_stayed = 2\<rparr>] [] =
     Inr [(''Person1'', 2 / 100), (''Person2'', 2 / 100)]"
    by (simp add: eval_defs)
qed


subsection \<open>Binary64: the error of one rounding\<close>

text \<open>A rounding that stays finite moves its argument by at most half a unit in the last
  place: a relative error of \<open>2^-53\<close>, or \<open>2^-1075\<close> absolutely in the subnormal range.\<close>

lemma round_f64_error:
  assumes "round_f64 x = Finite q"
  shows "\<bar>q - x\<bar> \<le> \<bar>x\<bar> / 2 ^ 53 + 1 / 2 ^ 1075"
proof (cases "x = 0")
  case True
  then show ?thesis using assms by (simp add: round_f64_def)
next
  case False
  define a where "a = \<bar>x\<bar>"
  define e where "e = max (ilog2 a - 52) (- 1074)"
  define m where "m = round_half_even (a / 2 powi e)"
  define r :: rat where "r = of_int m * 2 powi e"
  have a: "0 < a" using False by (simp add: a_def)
  have pe: "(0::rat) < 2 powi e" by simp
  have "(2::rat) powi e \<le> 2 powi (ilog2 a - 52) + 2 powi (- 1074)"
    unfolding e_def max_def by (auto simp: less_imp_le)
  also have "(2::rat) powi (ilog2 a - 52) = 2 powi ilog2 a / 2 ^ 52"
    by (simp add: power_int_diff)
  also have "\<dots> \<le> a / 2 ^ 52"
    using ilog2_bounds(1) [OF a] by (simp add: divide_right_mono)
  finally have e: "(2::rat) powi e \<le> a / 2 ^ 52 + 2 powi (- 1074)" by simp
  have "\<bar>of_int m - a / 2 powi e\<bar> \<le> 1 / 2"
    unfolding m_def using round_half_even_le [of "a / 2 powi e"] round_half_even_ge [of "a / 2 powi e"]
    by linarith
  then have "\<bar>of_int m - a / 2 powi e\<bar> * 2 powi e \<le> 1 / 2 * 2 powi e"
    using pe by (simp only: mult_le_cancel_right_pos)
  moreover have "\<bar>of_int m - a / 2 powi e\<bar> * 2 powi e = \<bar>r - a\<bar>"
  proof -
    have "\<bar>of_int m - a / 2 powi e\<bar> * 2 powi e = \<bar>(of_int m - a / 2 powi e) * 2 powi e\<bar>"
      using pe by (simp add: abs_mult)
    also have "(of_int m - a / 2 powi e) * 2 powi e = r - a"
      using pe by (simp add: r_def field_simps)
    finally show ?thesis .
  qed
  ultimately have "\<bar>r - a\<bar> \<le> 2 powi e / 2" by simp
  also have "\<dots> \<le> (a / 2 ^ 52 + 2 powi (- 1074)) / 2" using e by simp
  also have "\<dots> = a / 2 ^ 53 + 1 / 2 ^ 1075"
    by (simp add: field_simps power_int_minus)
  finally have ra: "\<bar>r - a\<bar> \<le> a / 2 ^ 53 + 1 / 2 ^ 1075" .
  have "round_f64 x = (if r \<ge> 2 ^ 1024 then (if x > 0 then PlusInf else MinusInf) else Finite (sgn x * r))"
    using False unfolding round_f64_def a_def [symmetric] e_def [symmetric] Let_def
      m_def [symmetric] r_def [symmetric]
    by simp
  then have q: "q = sgn x * r" using assms by (auto split: if_splits)
  have "q - x = sgn x * (r - a)"
    unfolding q a_def by (simp add: algebra_simps sgn_if)
  then have "\<bar>q - x\<bar> = \<bar>r - a\<bar>" using False by (simp add: abs_mult sgn_if)
  then show ?thesis using ra by (simp add: a_def)
qed

text \<open>
  A magnitude of at least the smallest positive float does not round to zero; half of the
  smallest positive float does, being a tie that goes to the even neighbour.
\<close>

lemma round_f64_nonzero:
  assumes "1 / 2 ^ 1074 \<le> \<bar>x\<bar>"
  shows "round_f64 x \<noteq> Finite 0"
proof -
  define a where "a = \<bar>x\<bar>"
  define e where "e = max (ilog2 a - 52) (- 1074)"
  define m where "m = round_half_even (a / 2 powi e)"
  define r :: rat where "r = of_int m * 2 powi e"
  have "(0::rat) < 1 / 2 ^ 1074" by simp
  then have a: "0 < a" using assms unfolding a_def by linarith
  then have x: "x \<noteq> 0" by (auto simp: a_def)
  have pe: "(0::rat) < 2 powi e" by simp
  have y1: "1 \<le> a / 2 powi e"
  proof (cases "ilog2 a - 52 \<le> - 1074")
    case True
    then have "e = - 1074" by (simp add: e_def)
    then have "a / 2 powi e = a * 2 ^ 1074" by (simp add: power_int_minus field_simps)
    moreover have "1 \<le> a * 2 ^ 1074" using assms by (simp add: a_def field_simps)
    ultimately show ?thesis by simp
  next
    case False
    then have e: "e = ilog2 a - 52" by (simp add: e_def)
    have "(2::rat) ^ 52 = 2 powi ilog2 a / 2 powi e"
      by (simp add: e power_int_diff)
    also have "\<dots> \<le> a / 2 powi e"
      using ilog2_bounds(1) [OF a] pe by (simp add: divide_right_mono)
    finally have "(2::rat) ^ 52 \<le> a / 2 powi e" .
    moreover have "(1::rat) \<le> 2 ^ 52" by simp
    ultimately show ?thesis by (rule order_trans [rotated])
  qed
  then have "(0::rat) < of_int m"
    unfolding m_def using round_half_even_ge [of "a / 2 powi e"] by linarith
  then have r0: "0 < r" unfolding r_def using pe by simp
  have "round_f64 x = (if r \<ge> 2 ^ 1024 then (if x > 0 then PlusInf else MinusInf) else Finite (sgn x * r))"
    using x unfolding round_f64_def a_def [symmetric] e_def [symmetric] Let_def
      m_def [symmetric] r_def [symmetric]
    by simp
  moreover have "sgn x * r \<noteq> 0" using x r0 by (simp add: sgn_if)
  ultimately show ?thesis by (auto split: if_splits)
qed

lemma round_f64_half_ulp: "round_f64 (1 / 2 ^ 1075) = Finite 0"
proof -
  have k: "ilog2 \<bar>1 / 2 ^ 1075 :: rat\<bar> = - 1075"
    by (rule ilog2_unique) (simp_all add: power_int_minus)
  have "\<lfloor>1 / 2 :: rat\<rfloor> = 0" by (intro floor_unique) simp_all
  then have m: "round_half_even (1 / 2) = 0"
    by (simp add: round_half_even_def)
  have y: "\<bar>1 / 2 ^ 1075 :: rat\<bar> / 2 powi (max (- 1075 - 52) (- 1074)) = 1 / 2"
    by (simp add: power_int_minus)
  show ?thesis
    unfolding round_f64_def k Let_def y m by simp
qed

text \<open>
  The natural numbers below \<open>2^53\<close> are floats: converting them is exact.
\<close>

lemma round_half_even_of_int: "round_half_even (of_int j) = j"
  by (rule round_half_even_nearest) simp

lemma round_f64_of_nat:
  assumes "n < 2 ^ 53"
  shows "round_f64 (of_nat n) = Finite (of_nat n)"
proof (cases "n = 0")
  case True
  then show ?thesis by (simp add: round_f64_def)
next
  case False
  define x :: rat where "x = of_nat n"
  define k where "k = ilog2 x"
  have x1: "1 \<le> x" using False by (simp add: x_def)
  then have x: "0 < x" by linarith
  have "x < of_nat (2 ^ 53)" unfolding x_def using assms by (simp only: of_nat_less_iff)
  then have xu: "x < 2 ^ 53" by simp
  note kb = ilog2_bounds [OF x, folded k_def]
  have k0: "0 \<le> k"
  proof (rule ccontr)
    assume "\<not> 0 \<le> k"
    then have "k + 1 \<le> 0" by simp
    then have "(2::rat) powi (k + 1) \<le> 2 powi 0"
      by (intro power_int_increasing) simp_all
    then show False using kb(2) x1 by simp
  qed
  have k52: "k \<le> 52"
  proof (rule ccontr)
    assume "\<not> k \<le> 52"
    then have "53 \<le> k" by simp
    then have "(2::rat) powi 53 \<le> 2 powi k"
      by (intro power_int_increasing) simp_all
    then show False using kb(1) xu by simp
  qed
  define j where "j = nat (52 - k)"
  have e: "k - 52 = max (k - 52) (- 1074)" using k0 by simp
  have p: "(2::rat) powi (k - 52) = 1 / 2 ^ j"
    using k52 by (simp add: j_def power_int_def nat_diff_distrib field_simps)
  have y: "x / 2 powi (k - 52) = of_int (int n * 2 ^ j)"
    by (simp add: p x_def)
  have r: "of_int (int n * 2 ^ j) * 2 powi (k - 52) = x"
    by (simp add: p x_def)
  have "round_f64 x = Finite (of_int (int n * 2 ^ j) * 2 powi (k - 52))"
  proof (rule round_f64_nearest [OF x kb(1) kb(2) e])
    show "\<bar>x / 2 powi (k - 52) - of_int (int n * 2 ^ j)\<bar> < 1 / 2"
      unfolding y by simp
    have "x < 2 ^ 1024" using xu by (rule less_trans) simp
    then show "of_int (int n * 2 ^ j) * 2 powi (k - 52) < (2::rat) ^ 1024"
      unfolding r .
  qed
  then show ?thesis unfolding r by (simp add: x_def)
qed

lemma round_f64_numeral:
  "numeral w < (2::nat) ^ 53 \<Longrightarrow> round_f64 (numeral w) = Finite (numeral w)"
  using round_f64_of_nat [of "numeral w"] by simp

lemma f64_of_int_exact:
  assumes "n < 2 ^ 53"
  shows "f64_of_int (int n) = Inr (Finite (of_nat n))"
  using round_f64_of_nat [OF assms] by (simp add: f64_of_int_def)

text \<open>
  At a tie the rounding goes to the even neighbour.
\<close>

lemma round_half_even_tie: "round_half_even (of_int f + 1 / 2) = (if even f then f else f + 1)"
proof -
  have "\<lfloor>(of_int f :: rat) + 1 / 2\<rfloor> = f" by (intro floor_unique) simp_all
  then show ?thesis by (simp add: round_half_even_def)
qed

lemma round_f64_tie:
  assumes "0 < x" and "2 powi k \<le> x" and "x < 2 powi (k + 1)"
    and "e = max (k - 52) (- 1074)"
    and "x / 2 powi e = of_int f + 1 / 2"
    and "of_int (if even f then f else f + 1) * 2 powi e < (2::rat) ^ 1024"
  shows "round_f64 x = Finite (of_int (if even f then f else f + 1) * 2 powi e)"
proof -
  have k: "ilog2 \<bar>x\<bar> = k" using assms(1-3) by (simp add: ilog2_unique)
  have m: "round_half_even (\<bar>x\<bar> / 2 powi e) = (if even f then f else f + 1)"
    using assms(1) by (simp add: assms(5) round_half_even_tie)
  show ?thesis
    using assms(1,6) unfolding round_f64_def k m assms(4) [symmetric] Let_def
    by (simp add: not_le)
qed

subsection \<open>Binary64: the error of a share\<close>

text \<open>
  With zero night units, and for the additional share, the program divides by the number
  of participants: one rounding of the exact quotient.
\<close>

lemma equal_split_binary64:
  assumes "0 < n" and "n < 2 ^ 53"
  shows "cost_share binary64 (Finite c) n 0 k = Inr (round_f64 (c / of_nat n))"
    and "per_person_additional binary64 (Finite s) n = Inr (round_f64 (s / of_nat n))"
  using assms
  by (simp_all add: cost_share_def per_person_additional_def binary64_simps f64_of_int_exact)

lemma f64_div_nat_error:
  assumes "0 < n" and "\<bar>c\<bar> \<le> 10 ^ 25"
  shows "\<exists>v. round_f64 (c / of_nat n) = Finite v \<and>
           \<bar>of_nat n * v - c\<bar> \<le> \<bar>c\<bar> / 2 ^ 53 + of_nat n / 2 ^ 1075"
proof -
  define N :: rat where "N = of_nat n"
  have N: "1 \<le> N" using assms(1) by (simp add: N_def)
  then have N0: "0 < N" by linarith
  have "\<bar>c / N\<bar> = \<bar>c\<bar> / N" using N0 by simp
  also have "\<dots> \<le> \<bar>c\<bar> / 1" using N by (intro divide_left_mono) simp_all
  finally have b: "\<bar>c / N\<bar> \<le> \<bar>c\<bar>" by simp
  then have "\<bar>c / N\<bar> \<le> 10 ^ 25" using assms(2) by linarith
  from round_f64_le_bound [OF this] obtain v where v: "round_f64 (c / N) = Finite v" by auto
  have "\<bar>v - c / N\<bar> \<le> \<bar>c / N\<bar> / 2 ^ 53 + 1 / 2 ^ 1075" by (rule round_f64_error [OF v])
  then have "N * \<bar>v - c / N\<bar> \<le> N * (\<bar>c / N\<bar> / 2 ^ 53 + 1 / 2 ^ 1075)"
    using N0 by (simp only: mult_le_cancel_left_pos)
  moreover have "N * \<bar>v - c / N\<bar> = \<bar>N * v - c\<bar>"
  proof -
    have "N * \<bar>v - c / N\<bar> = \<bar>N * (v - c / N)\<bar>" using N0 by (simp add: abs_mult)
    also have "N * (v - c / N) = N * v - c" using N0 by (simp add: field_simps)
    finally show ?thesis .
  qed
  moreover have "N * (\<bar>c / N\<bar> / 2 ^ 53 + 1 / 2 ^ 1075) = \<bar>c\<bar> / 2 ^ 53 + N / 2 ^ 1075"
    using N0 by (simp add: field_simps)
  ultimately have "\<bar>N * v - c\<bar> \<le> \<bar>c\<bar> / 2 ^ 53 + N / 2 ^ 1075" by simp
  then show ?thesis using v unfolding N_def by blast
qed

text \<open>
  With positive night units the share is \<open>total_cost * (nights / night_units)\<close>: the
  quotient is rounded, and then the product.
\<close>

lemma cost_share_binary64_error:
  assumes "0 \<le> k" and "k \<le> t" and "0 < t" and "\<bar>c\<bar> \<le> 10 ^ 25"
  shows "\<exists>v. cost_share binary64 (Finite c) n t k = Inr (Finite v) \<and>
           \<bar>v - c * (of_int k / of_int t)\<bar> \<le>
             of_int k / of_int t * (\<bar>c\<bar> / 2 ^ 51) + (\<bar>c\<bar> + 1) / 2 ^ 1074"
proof -
  define X :: rat where "X = of_int k / of_int t"
  define A where "A = \<bar>c\<bar>"
  define P where "P = A * X"
  have X0: "0 \<le> X" using assms(1,3) by (simp add: X_def)
  have X1: "\<bar>X\<bar> \<le> 1" using assms(1-3) by (simp add: X_def)
  have A0: "0 \<le> A" by (simp add: A_def)
  have P0: "0 \<le> P" using A0 X0 by (simp add: P_def)
  from round_f64_le_bound [OF X1] obtain u where
    u: "round_f64 X = Finite u" and ub: "\<bar>u\<bar> \<le> 21 / 20" by auto
  have eu: "\<bar>u - X\<bar> \<le> X / 2 ^ 53 + 1 / 2 ^ 1075"
    using round_f64_error [OF u] X0 by simp
  have "\<bar>c * u\<bar> = \<bar>c\<bar> * \<bar>u\<bar>" by (rule abs_mult)
  also have "\<dots> \<le> 10 ^ 25 * (21 / 20)" using assms(4) ub by (intro mult_mono) simp_all
  also have "\<dots> \<le> 2 * 10 ^ 25" by simp
  finally have "\<bar>c * u\<bar> \<le> 2 * 10 ^ 25" .
  from round_f64_le_bound [OF this] obtain v where v: "round_f64 (c * u) = Finite v" by auto
  have ev: "\<bar>v - c * u\<bar> \<le> \<bar>c * u\<bar> / 2 ^ 53 + 1 / 2 ^ 1075" by (rule round_f64_error [OF v])
  have "\<bar>c * u - c * X\<bar> = A * \<bar>u - X\<bar>"
    by (simp add: A_def abs_mult [symmetric] right_diff_distrib)
  also have "\<dots> \<le> A * (X / 2 ^ 53 + 1 / 2 ^ 1075)" using A0 eu by (rule mult_left_mono [rotated])
  also have "\<dots> = P / 2 ^ 53 + A / 2 ^ 1075" by (simp add: P_def algebra_simps)
  finally have 1: "\<bar>c * u - c * X\<bar> \<le> P / 2 ^ 53 + A / 2 ^ 1075" .
  have "X / 2 ^ 53 \<le> X" using X0 by (simp add: field_simps)
  then have "\<bar>u\<bar> \<le> 2 * X + 1 / 2 ^ 1075" using eu X0 by linarith
  then have "A * \<bar>u\<bar> \<le> A * (2 * X + 1 / 2 ^ 1075)" using A0 by (rule mult_left_mono)
  also have "\<dots> = 2 * P + A / 2 ^ 1075" by (simp add: P_def algebra_simps)
  finally have 2: "\<bar>c * u\<bar> \<le> 2 * P + A / 2 ^ 1075" by (simp add: A_def abs_mult)
  have "\<bar>v - c * X\<bar> \<le> \<bar>v - c * u\<bar> + \<bar>c * u - c * X\<bar>" by linarith
  also have "\<dots> \<le> (2 * P + A / 2 ^ 1075) / 2 ^ 53 + 1 / 2 ^ 1075 + (P / 2 ^ 53 + A / 2 ^ 1075)"
  proof -
    have "\<bar>c * u\<bar> / 2 ^ 53 \<le> (2 * P + A / 2 ^ 1075) / 2 ^ 53"
      using 2 by (rule divide_right_mono) simp
    then show ?thesis using ev 1 by linarith
  qed
  also have "\<dots> \<le> P / 2 ^ 51 + (A + 1) / 2 ^ 1074"
    using P0 A0 by (simp add: field_simps)
  finally have "\<bar>v - c * X\<bar> \<le> X * (A / 2 ^ 51) + (A + 1) / 2 ^ 1074"
    by (simp add: P_def algebra_simps)
  moreover have "cost_share binary64 (Finite c) n t k = Inr (Finite v)"
    using assms(3) u v by (simp add: cost_share_def binary64_simps f64_int_truediv_def X_def)
  ultimately show ?thesis unfolding X_def A_def by blast
qed

lemma accommodation_shares_binary64_error:
  assumes "list_all2 (row_of binary64 (Finite c) n t s) ps rows"
    and "\<forall>p\<in>set ps. 0 \<le> nights_stayed p \<and> nights_stayed p \<le> t" and "0 < t"
    and "\<bar>c\<bar> \<le> 10 ^ 25"
  shows "\<exists>vs. map accommodation_share rows = map Finite vs \<and>
           \<bar>sum_list vs - c * (of_int (sum_list (map nights_stayed ps)) / of_int t)\<bar> \<le>
             of_int (sum_list (map nights_stayed ps)) / of_int t * (\<bar>c\<bar> / 2 ^ 51) +
             of_nat (length ps) * ((\<bar>c\<bar> + 1) / 2 ^ 1074)"
  using assms(1,2)
proof (induction ps rows rule: list_all2_induct)
  case Nil
  show ?case by (rule exI [of _ "[]"]) simp
next
  case (Cons p ps r rows)
  define E where "E = \<bar>c\<bar> / 2 ^ 51"
  define C where "C = (\<bar>c\<bar> + 1) / 2 ^ 1074"
  define k :: rat where "k = of_int (nights_stayed p) / of_int t"
  define K :: rat where "K = of_int (sum_list (map nights_stayed ps)) / of_int t"
  from Cons.prems have kp: "0 \<le> nights_stayed p" "nights_stayed p \<le> t" by simp_all
  from cost_share_binary64_error [OF kp assms(3,4), of n] obtain v where
    v: "cost_share binary64 (Finite c) n t (nights_stayed p) = Inr (Finite v)"
    and vb: "\<bar>v - c * k\<bar> \<le> k * E + C"
    unfolding E_def C_def k_def by blast
  have r: "accommodation_share r = Finite v" using Cons.hyps(1) v by (simp add: row_of_def)
  from Cons.IH Cons.prems obtain vs where
    m: "map accommodation_share rows = map Finite vs"
    and b: "\<bar>sum_list vs - c * K\<bar> \<le> K * E + of_nat (length ps) * C"
    unfolding E_def C_def K_def by auto
  have s: "of_int (sum_list (map nights_stayed (p # ps))) / of_int t = k + K"
    by (simp add: k_def K_def add_divide_distrib)
  have "sum_list (v # vs) - c * (k + K) = (v - c * k) + (sum_list vs - c * K)"
    by (simp add: algebra_simps)
  then have "\<bar>sum_list (v # vs) - c * (k + K)\<bar> \<le> \<bar>v - c * k\<bar> + \<bar>sum_list vs - c * K\<bar>"
    by (simp only: abs_triangle_ineq)
  also have "\<dots> \<le> (k * E + C) + (K * E + of_nat (length ps) * C)" using vb b by linarith
  also have "\<dots> = (k + K) * E + of_nat (length (p # ps)) * C" by (simp add: algebra_simps)
  finally have "\<bar>sum_list (v # vs) - c * (k + K)\<bar> \<le> (k + K) * E + of_nat (length (p # ps)) * C" .
  then have "map accommodation_share (r # rows) = map Finite (v # vs) \<and>
      \<bar>sum_list (v # vs) - c * (of_int (sum_list (map nights_stayed (p # ps))) / of_int t)\<bar> \<le>
        of_int (sum_list (map nights_stayed (p # ps))) / of_int t * (\<bar>c\<bar> / 2 ^ 51) +
        of_nat (length (p # ps)) * ((\<bar>c\<bar> + 1) / 2 ^ 1074)"
    unfolding s E_def C_def using r m by simp
  then show ?case by (rule exI)
qed

lemma rows_constant:
  assumes "list_all2 R ps rows" and "\<And>p r. R p r \<Longrightarrow> f r = a"
  shows "map f rows = replicate (length ps) a"
  using assms(1)
  by (induction ps rows rule: list_all2_induct) (simp_all add: assms(2))

lemma row_of_member:
  assumes "list_all2 R ps rows" and "r \<in> set rows"
  shows "\<exists>p\<in>set ps. R p r"
  using assms by (induction ps rows rule: list_all2_induct) auto

lemma small_amount_tolerance:
  fixes c :: rat
  assumes "\<bar>d\<bar> \<le> \<bar>c\<bar> / 2 ^ 53 + of_nat n / 2 ^ 1075" and "n < 2 ^ 53" and "\<bar>c\<bar> \<le> 10 ^ 6"
  shows "\<bar>d\<bar> \<le> 1 / 10 ^ 9"
proof -
  have "n \<le> 2 ^ 53" using assms(2) by simp
  then have "(of_nat n :: rat) \<le> of_nat (2 ^ 53)" by (rule of_nat_mono)
  then have "(of_nat n :: rat) \<le> 2 ^ 53" by simp
  then have "(of_nat n :: rat) / 2 ^ 1075 \<le> 2 ^ 53 / 2 ^ 1075"
    by (intro divide_right_mono) simp_all
  moreover have "\<bar>c\<bar> / 2 ^ 53 \<le> 10 ^ 6 / 2 ^ 53"
    using assms(3) by (intro divide_right_mono) simp_all
  moreover have "(10::rat) ^ 6 / 2 ^ 53 + 2 ^ 53 / 2 ^ 1075 \<le> 1 / 10 ^ 9" by simp
  ultimately show ?thesis using assms(1) by linarith
qed

subsection \<open>Binary64: the roundings at the inputs used below\<close>

lemma round_f64_1_4: "round_f64 (1 / 4) = Finite (1 / 4)"
  using round_f64_nearest [of "1 / 4" "-2" "-54" "4503599627370496"] by simp

lemma round_f64_3_4: "round_f64 (3 / 4) = Finite (3 / 4)"
  using round_f64_nearest [of "3 / 4" "-1" "-53" "6755399441055744"] by simp

lemma round_f64_1_7: "round_f64 (1 / 7) = Finite (2573485501354569 / 18014398509481984)"
  using round_f64_nearest [of "1 / 7" "-3" "-55" "5146971002709138"] by simp

lemma round_f64_2_7: "round_f64 (2 / 7) = Finite (2573485501354569 / 9007199254740992)"
  using round_f64_nearest [of "2 / 7" "-2" "-54" "5146971002709138"] by simp

lemma round_f64_4_7: "round_f64 (4 / 7) = Finite (2573485501354569 / 4503599627370496)"
  using round_f64_nearest [of "4 / 7" "-1" "-53" "5146971002709138"] by simp

lemma round_f64_c2_1: "round_f64 (5026338869833142578125 / 35184372088832) = Finite (4793490285714285 / 33554432)"
  using round_f64_nearest [of "5026338869833142578125 / 35184372088832" "27" "-25" "4793490285714285"] by simp

lemma round_f64_c2_2: "round_f64 (4793490285714285 / 33554432) = Finite (4793490285714285 / 33554432)"
  using round_f64_nearest [of "4793490285714285 / 33554432" "27" "-25" "4793490285714285"] by simp

lemma round_f64_c2_3: "round_f64 (7142857143 / 50) = Finite (1198372571452539 / 8388608)"
  using round_f64_nearest [of "7142857143 / 50" "27" "-25" "4793490285810156"] by simp

lemma round_f64_c2_4: "round_f64 (5026338869833142578125 / 17592186044416) = Finite (4793490285714285 / 16777216)"
  using round_f64_nearest [of "5026338869833142578125 / 17592186044416" "28" "-24" "4793490285714285"] by simp

lemma round_f64_c2_5: "round_f64 (4793490285714285 / 16777216) = Finite (4793490285714285 / 16777216)"
  using round_f64_nearest [of "4793490285714285 / 16777216" "28" "-24" "4793490285714285"] by simp

lemma round_f64_c2_6: "round_f64 (28571428571 / 100) = Finite (4793490285642383 / 16777216)"
  using round_f64_nearest [of "28571428571 / 100" "28" "-24" "4793490285642383"] by simp

lemma round_f64_c2_7: "round_f64 (5026338869833142578125 / 8796093022208) = Finite (4793490285714285 / 8388608)"
  using round_f64_nearest [of "5026338869833142578125 / 8796093022208" "29" "-23" "4793490285714285"] by simp

lemma round_f64_c2_8: "round_f64 (4793490285714285 / 8388608) = Finite (4793490285714285 / 8388608)"
  using round_f64_nearest [of "4793490285714285 / 8388608" "29" "-23" "4793490285714285"] by simp

lemma round_f64_c2_9: "round_f64 (57142857143 / 100) = Finite (4793490285726269 / 8388608)"
  using round_f64_nearest [of "57142857143 / 100" "29" "-23" "4793490285726269"] by simp

lemma round_f64_1_6: "round_f64 (1 / 6) = Finite (6004799503160661 / 36028797018963968)"
  using round_f64_nearest [of "1 / 6" "-3" "-55" "6004799503160661"] by simp

lemma round_f64_sixth: "round_f64 (6004799503160661 / 36028797018963968) = Finite (6004799503160661 / 36028797018963968)"
  using round_f64_nearest [of "6004799503160661 / 36028797018963968" "-3" "-55" "6004799503160661"] by simp

lemma round_f64_17_100: "round_f64 (17 / 100) = Finite (6124895493223875 / 36028797018963968)"
  using round_f64_nearest [of "17 / 100" "-3" "-55" "6124895493223875"] by simp



lemma round_f64_5e324: "round_f64 (5 / 10 ^ 324) = Finite (1 / 2 ^ 1074)"
  using round_f64_nearest [of "5 / 10 ^ 324" "- 1074" "- 1074" "1"]
  by (simp add: power_int_minus)

lemma round_f64_c7_1: "round_f64 (821 / 10) = Finite (2888636948493107 / 35184372088832)"
  using round_f64_nearest [of "821 / 10" "6" "-46" "5777273896986214"] by simp

lemma round_f64_c7_2: "round_f64 (15837 / 100) = Finite (1393037251927081 / 8796093022208)"
  using round_f64_nearest [of "15837 / 100" "7" "-45" "5572149007708324"] by simp

lemma round_f64_c7_3: "round_f64 (1393037251927081 / 8796093022208) = Finite (1393037251927081 / 8796093022208)"
  using round_f64_nearest [of "1393037251927081 / 8796093022208" "7" "-45" "5572149007708324"] by simp

lemma round_f64_c7_4: "round_f64 (3 / 5) = Finite (5404319552844595 / 9007199254740992)"
  using round_f64_nearest [of "3 / 5" "-1" "-53" "5404319552844595"] by simp

lemma round_f64_c7_5: "round_f64 (15611117141810643420840599706665 / 316912650057057350374175801344) = Finite (6932728676383457 / 140737488355328)"
  using round_f64_nearest [of "15611117141810643420840599706665 / 316912650057057350374175801344" "5" "-47" "6932728676383457"] by simp

lemma round_f64_c7_6: "round_f64 (1393037251927081 / 17592186044416) = Finite (1393037251927081 / 17592186044416)"
  using round_f64_nearest [of "1393037251927081 / 17592186044416" "6" "-46" "5572149007708324"] by simp

lemma round_f64_c7_7: "round_f64 (18077026691800105 / 140737488355328) = Finite (2259628336475013 / 17592186044416)"
  using round_f64_nearest [of "18077026691800105 / 140737488355328" "7" "-45" "4519256672950026"] by simp

lemma round_f64_c7_8: "round_f64 (3211 / 25) = Finite (2259540375544791 / 17592186044416)"
  using round_f64_nearest [of "3211 / 25" "7" "-45" "4519080751089582"] by simp

lemma round_f64_c7_9: "round_f64 (2 / 5) = Finite (3602879701896397 / 9007199254740992)"
  using round_f64_nearest [of "2 / 5" "-2" "-54" "7205759403792794"] by simp

lemma round_f64_c7_10: "round_f64 (10407411427873763243439382635479 / 316912650057057350374175801344) = Finite (4621819117588971 / 140737488355328)"
  using round_f64_nearest [of "10407411427873763243439382635479 / 316912650057057350374175801344" "5" "-47" "4621819117588971"] by simp

lemma round_f64_c7_11: "round_f64 (15766117133005619 / 140737488355328) = Finite (3941529283251405 / 35184372088832)"
  using round_f64_tie [of "15766117133005619 / 140737488355328" "6" "-46" "7883058566502809"] by simp

lemma round_f64_c7_12: "round_f64 (11203 / 100) = Finite (3941705205111849 / 35184372088832)"
  using round_f64_nearest [of "11203 / 100" "6" "-46" "7883410410223698"] by simp

lemma round_f64_c7_13: "round_f64 (2463 / 50) = Finite (6932728676383457 / 140737488355328)"
  using round_f64_nearest [of "2463 / 50" "5" "-47" "6932728676383457"] by simp

lemma round_f64_c7_14: "round_f64 (15837 / 200) = Finite (1393037251927081 / 17592186044416)"
  using round_f64_nearest [of "15837 / 200" "6" "-46" "5572149007708324"] by simp

lemma round_f64_c10_1: "round_f64 (22133 / 100) = Finite (7787357074421187 / 35184372088832)"
  using round_f64_nearest [of "22133 / 100" "7" "-45" "7787357074421187"] by simp

lemma round_f64_c10_2: "round_f64 (925 / 4) = Finite (925 / 4)"
  using round_f64_nearest [of "925 / 4" "7" "-45" "8136386045542400"] by simp

lemma round_f64_c10_3: "round_f64 (65603 / 100) = Finite (2885250452679557 / 4398046511104)"
  using round_f64_nearest [of "65603 / 100" "9" "-43" "5770500905359114"] by simp

lemma round_f64_c10_4: "round_f64 (7787357074421187 / 35184372088832) = Finite (7787357074421187 / 35184372088832)"
  using round_f64_nearest [of "7787357074421187 / 35184372088832" "7" "-45" "7787357074421187"] by simp

lemma round_f64_c10_5: "round_f64 (15923743119963587 / 35184372088832) = Finite (3980935779990897 / 8796093022208)"
  using round_f64_tie [of "15923743119963587 / 35184372088832" "8" "-44" "7961871559981793"] by simp

lemma round_f64_c10_6: "round_f64 (9751436685350011 / 8796093022208) = Finite (2437859171337503 / 2199023255552)"
  using round_f64_tie [of "9751436685350011 / 8796093022208" "10" "-42" "4875718342675005"] by simp

lemma round_f64_c10_7: "round_f64 (2437859171337503 / 4398046511104) = Finite (2437859171337503 / 4398046511104)"
  using round_f64_nearest [of "2437859171337503 / 4398046511104" "9" "-43" "4875718342675006"] by simp

lemma round_f64_c10_8: "round_f64 (55431 / 100) = Finite (1218940580785029 / 2199023255552)"
  using round_f64_nearest [of "55431 / 100" "9" "-43" "4875762323140116"] by simp

lemma round_f64_c10_9: "round_f64 (2885250452679557 / 4398046511104) = Finite (2885250452679557 / 4398046511104)"
  using round_f64_nearest [of "2885250452679557 / 4398046511104" "9" "-43" "5770500905359114"] by simp

lemma round_f64_c10_10: "round_f64 (3902298708372357 / 4398046511104) = Finite (3902298708372357 / 4398046511104)"
  using round_f64_nearest [of "3902298708372357 / 4398046511104" "9" "-43" "7804597416744714"] by simp

lemma round_f64_c10_11: "round_f64 (39005746741400043 / 35184372088832) = Finite (4875718342675005 / 4398046511104)"
  using round_f64_nearest [of "39005746741400043 / 35184372088832" "10" "-42" "4875718342675005"] by simp

lemma round_f64_c10_12: "round_f64 (4875718342675005 / 8796093022208) = Finite (4875718342675005 / 8796093022208)"
  using round_f64_nearest [of "4875718342675005 / 8796093022208" "9" "-43" "4875718342675005"] by simp

lemma round_f64_c10_13: "round_f64 (5543 / 10) = Finite (2437837181104947 / 4398046511104)"
  using round_f64_nearest [of "5543 / 10" "9" "-43" "4875674362209894"] by simp

subsection \<open>The sums of the shares\<close>

text \<open>
  Claim C2, as amended. When no participant has a negative number of nights and the night
  units are positive: in binary64, for a total cost \<open>c\<close> of magnitude at most \<open>10^25\<close>,
  every accommodation share the breakdown returns is finite, and the exact sum of the
  returned shares differs from the total cost by at most
  \<open>\<bar>c\<bar> / 2^51 + n * (\<bar>c\<bar> + 1) / 2^1074\<close> for \<open>n\<close> participants, a relative error of
  \<open>2^-51\<close>; this is within \<open>1e-9\<close> when the total cost is at most
  \<open>10^6\<close>. In exact arithmetic the shares add up to the total cost exactly. Neither the
  sign of the total cost nor the expenses matter.
\<close>
theorem accommodation_shares_sum_near_total_cost:
  assumes "\<forall>p\<in>set participants_info. nights_stayed p \<ge> 0"
    and "total_night_units participants_info > 0"
  shows "(\<forall>rows. \<bar>c\<bar> \<le> 10 ^ 25 \<and>
            breakdown_rows binary64 (Finite c) participants_info expenses = Inr rows \<longrightarrow>
            (\<exists>vs. map accommodation_share rows = map Finite vs \<and>
               \<bar>sum_list vs - c\<bar> \<le>
                 \<bar>c\<bar> / 2 ^ 51 + of_nat (length participants_info) * ((\<bar>c\<bar> + 1) / 2 ^ 1074) \<and>
               (\<bar>c\<bar> \<le> 10 ^ 6 \<and> length participants_info < 2 ^ 63 \<longrightarrow>
                  \<bar>sum_list vs - c\<bar> \<le> 1 / 10 ^ 9))) \<and>
         (\<forall>rows. breakdown_rows exact c participants_info exact_expenses = Inr rows \<longrightarrow>
            sum_list (map accommodation_share rows) = c)"
proof (intro conjI allI impI)
  let ?t = "total_night_units participants_info"
  let ?n = "length participants_info"
  have t: "?t = sum_list (map nights_stayed participants_info)"
    using assms(1) by (simp add: total_night_units_nonneg list_all_iff)
  {
    fix rows
    assume "breakdown_rows exact c participants_info exact_expenses = Inr rows"
    from breakdown_rows_exact(1) [OF this]
    show "sum_list (map accommodation_share rows) = c"
      using assms(2) t by (simp add: sum_list_scaled del: times_divide_eq_right)
  }
  fix rows
  assume a: "\<bar>c\<bar> \<le> 10 ^ 25 \<and>
    breakdown_rows binary64 (Finite c) participants_info expenses = Inr rows"
  then have l: "list_all2 (row_of binary64 (Finite c) ?n ?t (num_sum binary64 (map snd expenses)))
      participants_info rows"
    by (simp add: breakdown_rows_def breakdown_loop_Inr_iff)
  have k: "\<forall>p\<in>set participants_info. 0 \<le> nights_stayed p \<and> nights_stayed p \<le> ?t"
    using assms(1) nights_le_total_night_units [OF assms(1)] by blast
  from accommodation_shares_binary64_error [OF l k assms(2)] a obtain vs where
    m: "map accommodation_share rows = map Finite vs"
    and b: "\<bar>sum_list vs - c * (of_int (sum_list (map nights_stayed participants_info)) / of_int ?t)\<bar> \<le>
      of_int (sum_list (map nights_stayed participants_info)) / of_int ?t * (\<bar>c\<bar> / 2 ^ 51) +
      of_nat ?n * ((\<bar>c\<bar> + 1) / 2 ^ 1074)"
    by blast
  have one: "(of_int (sum_list (map nights_stayed participants_info)) :: rat) / of_int ?t = 1"
    using assms(2) t by simp
  have b': "\<bar>sum_list vs - c\<bar> \<le> \<bar>c\<bar> / 2 ^ 51 + of_nat ?n * ((\<bar>c\<bar> + 1) / 2 ^ 1074)"
    using b unfolding one by simp
  have small: "\<bar>sum_list vs - c\<bar> \<le> 1 / 10 ^ 9"
    if c6: "\<bar>c\<bar> \<le> 10 ^ 6" and n: "?n < 2 ^ 63"
  proof -
    have "?n \<le> 2 ^ 63" using n by simp
    then have "(of_nat ?n :: rat) \<le> of_nat (2 ^ 63)" by (rule of_nat_mono)
    then have n': "(of_nat ?n :: rat) \<le> 2 ^ 63" by simp
    have "(\<bar>c\<bar> + 1) / 2 ^ 1074 \<le> (10 ^ 6 + 1) / 2 ^ 1074"
      using c6 by (intro divide_right_mono) simp_all
    then have "of_nat ?n * ((\<bar>c\<bar> + 1) / 2 ^ 1074) \<le> 2 ^ 63 * ((10 ^ 6 + 1) / 2 ^ 1074)"
      using n' by (intro mult_mono) simp_all
    moreover have "\<bar>c\<bar> / 2 ^ 51 \<le> 10 ^ 6 / 2 ^ 51"
      using c6 by (intro divide_right_mono) simp_all
    moreover have "(10::rat) ^ 6 / 2 ^ 51 + 2 ^ 63 * ((10 ^ 6 + 1) / 2 ^ 1074) \<le> 1 / 10 ^ 9"
      by simp
    ultimately show ?thesis using b' by linarith
  qed
  show "\<exists>vs. map accommodation_share rows = map Finite vs \<and>
               \<bar>sum_list vs - c\<bar> \<le>
                 \<bar>c\<bar> / 2 ^ 51 + of_nat ?n * ((\<bar>c\<bar> + 1) / 2 ^ 1074) \<and>
               (\<bar>c\<bar> \<le> 10 ^ 6 \<and> ?n < 2 ^ 63 \<longrightarrow>
                  \<bar>sum_list vs - c\<bar> \<le> 1 / 10 ^ 9)"
    using m b' small by blast
qed

theorem accommodation_shares_sum_near_total_cost_witness:
  "breakdown_rows binary64 (Finite 300)
     [\<lparr>name = ''Person1'', nights_stayed = 1\<rparr>, \<lparr>name = ''Person2'', nights_stayed = 3\<rparr>] [] =
     Inr [\<lparr>row_participant = ''Person1'', row_nights_stayed = 1, accommodation_share = Finite 75,
            additional_share = Finite 0, total_owed = Finite 75\<rparr>,
          \<lparr>row_participant = ''Person2'', row_nights_stayed = 3, accommodation_share = Finite 225,
            additional_share = Finite 0, total_owed = Finite 225\<rparr>] \<and>
   (\<exists>vs. map accommodation_share
       [\<lparr>row_participant = ''Person1'', row_nights_stayed = 1, accommodation_share = Finite 75,
            additional_share = Finite 0, total_owed = Finite 75\<rparr>,
          \<lparr>row_participant = ''Person2'', row_nights_stayed = 3, accommodation_share = Finite 225,
            additional_share = Finite 0, total_owed = Finite 225\<rparr>] = map Finite vs \<and>
      \<bar>sum_list vs - 300\<bar> \<le> 1 / 10 ^ 9) \<and>
   breakdown_rows exact 300
     [\<lparr>name = ''Person1'', nights_stayed = 1\<rparr>, \<lparr>name = ''Person2'', nights_stayed = 3\<rparr>] [] =
     Inr [\<lparr>row_participant = ''Person1'', row_nights_stayed = 1, accommodation_share = 75,
            additional_share = 0, total_owed = 75\<rparr>,
          \<lparr>row_participant = ''Person2'', row_nights_stayed = 3, accommodation_share = 225,
            additional_share = 0, total_owed = 225\<rparr>] \<and>
   sum_list (map accommodation_share
     [\<lparr>row_participant = ''Person1'', row_nights_stayed = 1, accommodation_share = 75,
            additional_share = 0, total_owed = 75\<rparr>,
          \<lparr>row_participant = ''Person2'', row_nights_stayed = 3, accommodation_share = 225,
            additional_share = 0, total_owed = 225\<rparr>]) = (300::rat)"
  (is "?f \<and> ?fb \<and> ?e \<and> ?eb")
proof -
  have h1: "\<forall>p\<in>set [\<lparr>name = ''Person1'', nights_stayed = 1\<rparr>, \<lparr>name = ''Person2'', nights_stayed = 3\<rparr>]. nights_stayed p \<ge> 0"
    by simp
  have h2: "total_night_units [\<lparr>name = ''Person1'', nights_stayed = 1\<rparr>, \<lparr>name = ''Person2'', nights_stayed = 3\<rparr>] > 0"
    by (simp add: total_night_units_def)
  have f: ?f
    by (simp add: f64_eval round_f64_numeral round_f64_1_4 round_f64_3_4)
  have e: ?e by (simp add: eval_defs)
  note c = accommodation_shares_sum_near_total_cost [OF h1 h2, of 300 "[]" "[]"]
  have "\<bar>300 :: rat\<bar> \<le> 10 ^ 25" by simp
  with conjunct1 [OF c] f obtain vs where
    m: "map accommodation_share
       [\<lparr>row_participant = ''Person1'', row_nights_stayed = 1, accommodation_share = Finite 75,
            additional_share = Finite 0, total_owed = Finite 75\<rparr>,
          \<lparr>row_participant = ''Person2'', row_nights_stayed = 3, accommodation_share = Finite 225,
            additional_share = Finite 0, total_owed = Finite 225\<rparr>] = map Finite vs"
    and i: "\<bar>300 :: rat\<bar> \<le> 10 ^ 6 \<and>
      length [\<lparr>name = ''Person1'', nights_stayed = 1\<rparr>, \<lparr>name = ''Person2'', nights_stayed = 3\<rparr>] < 2 ^ 63 \<longrightarrow>
      \<bar>sum_list vs - 300\<bar> \<le> 1 / 10 ^ 9"
    by blast
  have "\<bar>sum_list vs - 300\<bar> \<le> 1 / 10 ^ 9" by (rule mp [OF i]) simp
  with m have fb: ?fb by blast
  have eb: ?eb using conjunct2 [OF c] e by simp
  show ?thesis using f fb e eb by simp
qed

text \<open>
  As stated, with an absolute tolerance of \<open>1e-9\<close> for every total cost, the claim fails
  on the program: a total cost of \<open>1e9\<close> over stays of 1, 2 and 4 nights gives the shares
  \<open>142857142.85714284\<close>, \<open>285714285.7142857\<close> and \<open>571428571.4285713\<close>, whose sum is
  \<open>5 / 2^25\<close>, about \<open>1.49e-7\<close>, below the total cost.
\<close>

theorem accommodation_shares_sum_off_counterexample:
  "breakdown_rows binary64 (Finite 1000000000)
     [\<lparr>name = ''A'', nights_stayed = 1\<rparr>, \<lparr>name = ''B'', nights_stayed = 2\<rparr>,
      \<lparr>name = ''C'', nights_stayed = 4\<rparr>] [] =
     Inr [\<lparr>row_participant = ''A'', row_nights_stayed = 1,
            accommodation_share = Finite (4793490285714285 / 33554432),
            additional_share = Finite 0,
            total_owed = round_f64 (14285714286 / 100)\<rparr>,
          \<lparr>row_participant = ''B'', row_nights_stayed = 2,
            accommodation_share = Finite (4793490285714285 / 16777216),
            additional_share = Finite 0,
            total_owed = round_f64 (28571428571 / 100)\<rparr>,
          \<lparr>row_participant = ''C'', row_nights_stayed = 4,
            accommodation_share = Finite (4793490285714285 / 8388608),
            additional_share = Finite 0,
            total_owed = round_f64 (57142857143 / 100)\<rparr>] \<and>
   1000000000 - sum_list [4793490285714285 / 33554432, 4793490285714285 / 16777216,
     4793490285714285 / 8388608] = (5 / 33554432 :: rat) \<and>
   (1 / 10 ^ 9 :: rat) < 5 / 33554432"
  by (simp add: f64_eval round_f64_numeral round_f64_1_7 round_f64_2_7 round_f64_4_7
      round_f64_c2_1 round_f64_c2_2 round_f64_c2_3 round_f64_c2_4 round_f64_c2_5 round_f64_c2_6 round_f64_c2_7 round_f64_c2_8 round_f64_c2_9)

text \<open>
  Claim C9, as amended. When the night units are zero and there is at least one
  participant (fewer than \<open>2^53\<close>): in binary64, for a total cost \<open>c\<close> of magnitude at most
  \<open>10^25\<close>, every row carries the same accommodation share, the float quotient of the
  total cost by the number \<open>n\<close> of participants, and the exact sum of these shares differs
  from the total cost by at most \<open>\<bar>c\<bar> / 2^53 + n / 2^1075\<close>, which is within \<open>1e-9\<close> when
  the total cost is at most \<open>10^6\<close>. In exact arithmetic every share is \<open>c / n\<close> and the
  shares add up to the total cost exactly.
\<close>

theorem equal_split_sum_near_total_cost:
  assumes "participants_info \<noteq> []"
    and "total_night_units participants_info = 0"
  shows "(\<forall>rows. length participants_info < 2 ^ 53 \<and> \<bar>c\<bar> \<le> 10 ^ 25 \<and>
            breakdown_rows binary64 (Finite c) participants_info expenses = Inr rows \<longrightarrow>
            (\<exists>v. round_f64 (c / of_nat (length participants_info)) = Finite v \<and>
               map accommodation_share rows = replicate (length participants_info) (Finite v) \<and>
               \<bar>sum_list (replicate (length participants_info) v) - c\<bar> \<le>
                 \<bar>c\<bar> / 2 ^ 53 + of_nat (length participants_info) / 2 ^ 1075 \<and>
               (\<bar>c\<bar> \<le> 10 ^ 6 \<longrightarrow>
                  \<bar>sum_list (replicate (length participants_info) v) - c\<bar> \<le> 1 / 10 ^ 9))) \<and>
         (\<forall>rows. breakdown_rows exact c participants_info exact_expenses = Inr rows \<longrightarrow>
            map accommodation_share rows =
              replicate (length participants_info) (c / of_nat (length participants_info)) \<and>
            sum_list (map accommodation_share rows) = c)"
proof (intro conjI allI impI)
  let ?n = "length participants_info"
  have n: "0 < ?n" using assms(1) by simp
  {
    fix rows
    assume "breakdown_rows exact c participants_info exact_expenses = Inr rows"
    from breakdown_rows_exact(1) [OF this]
    have m: "map accommodation_share rows = map (\<lambda>p. c / of_nat ?n) participants_info"
      using assms(2) by simp
    then show "map accommodation_share rows = replicate ?n (c / of_nat ?n)"
      by (simp add: map_replicate_const)
    show "sum_list (map accommodation_share rows) = c"
      unfolding m using assms(1) by (simp add: sum_list_triv)
  }
  fix rows
  assume a: "?n < 2 ^ 53 \<and> \<bar>c\<bar> \<le> 10 ^ 25 \<and>
    breakdown_rows binary64 (Finite c) participants_info expenses = Inr rows"
  then have l: "list_all2 (row_of binary64 (Finite c) ?n 0 (num_sum binary64 (map snd expenses)))
      participants_info rows"
    using assms(2) by (simp add: breakdown_rows_def breakdown_loop_Inr_iff)
  from a have n53: "?n < 2 ^ 53" and c25: "\<bar>c\<bar> \<le> 10 ^ 25" by simp_all
  from f64_div_nat_error [OF n c25] obtain v where
    v: "round_f64 (c / of_nat ?n) = Finite v"
    and b: "\<bar>of_nat ?n * v - c\<bar> \<le> \<bar>c\<bar> / 2 ^ 53 + of_nat ?n / 2 ^ 1075"
    by blast
  have m: "map accommodation_share rows = replicate ?n (Finite v)"
  proof (rule rows_constant [OF l])
    fix p r
    assume "row_of binary64 (Finite c) ?n 0 (num_sum binary64 (map snd expenses)) p r"
    then show "accommodation_share r = Finite v"
      using equal_split_binary64(1) [OF n n53, of c] v by (simp add: row_of_def)
  qed
  have s: "sum_list (replicate ?n v) = of_nat ?n * v" by (simp add: sum_list_replicate)
  have b': "\<bar>sum_list (replicate ?n v) - c\<bar> \<le> \<bar>c\<bar> / 2 ^ 53 + of_nat ?n / 2 ^ 1075"
    unfolding s by (rule b)
  have "\<bar>sum_list (replicate ?n v) - c\<bar> \<le> 1 / 10 ^ 9" if "\<bar>c\<bar> \<le> 10 ^ 6"
    using b' n53 that by (rule small_amount_tolerance)
  then show "\<exists>v. round_f64 (c / of_nat ?n) = Finite v \<and>
               map accommodation_share rows = replicate ?n (Finite v) \<and>
               \<bar>sum_list (replicate ?n v) - c\<bar> \<le> \<bar>c\<bar> / 2 ^ 53 + of_nat ?n / 2 ^ 1075 \<and>
               (\<bar>c\<bar> \<le> 10 ^ 6 \<longrightarrow> \<bar>sum_list (replicate ?n v) - c\<bar> \<le> 1 / 10 ^ 9)"
    using v m b' by blast
qed

theorem equal_split_sum_near_total_cost_witness:
  "breakdown_rows binary64 (Finite 100) [\<lparr>name = ''A'', nights_stayed = 0\<rparr>, \<lparr>name = ''B'', nights_stayed = 0\<rparr>] [(''Food'', Finite 20)] =
     Inr [\<lparr>row_participant = ''A'', row_nights_stayed = 0, accommodation_share = Finite 50,
            additional_share = Finite 10, total_owed = Finite 60\<rparr>,
          \<lparr>row_participant = ''B'', row_nights_stayed = 0, accommodation_share = Finite 50,
            additional_share = Finite 10, total_owed = Finite 60\<rparr>] \<and>
   (\<exists>v. round_f64 (100 / 2) = Finite v \<and>
      map accommodation_share
         [\<lparr>row_participant = ''A'', row_nights_stayed = 0, accommodation_share = Finite 50,
            additional_share = Finite 10, total_owed = Finite 60\<rparr>,
          \<lparr>row_participant = ''B'', row_nights_stayed = 0, accommodation_share = Finite 50,
            additional_share = Finite 10, total_owed = Finite 60\<rparr>] = replicate 2 (Finite v) \<and>
      \<bar>sum_list (replicate 2 v) - 100\<bar> \<le> 1 / 10 ^ 9) \<and>
   breakdown_rows exact 100 [\<lparr>name = ''A'', nights_stayed = 0\<rparr>, \<lparr>name = ''B'', nights_stayed = 0\<rparr>] [(''Food'', 20)] =
     Inr [\<lparr>row_participant = ''A'', row_nights_stayed = 0, accommodation_share = 50,
            additional_share = 10, total_owed = 60\<rparr>,
          \<lparr>row_participant = ''B'', row_nights_stayed = 0, accommodation_share = 50,
            additional_share = 10, total_owed = 60\<rparr>] \<and>
   sum_list (map accommodation_share
         [\<lparr>row_participant = ''A'', row_nights_stayed = 0, accommodation_share = 50,
            additional_share = 10, total_owed = 60\<rparr>,
          \<lparr>row_participant = ''B'', row_nights_stayed = 0, accommodation_share = 50,
            additional_share = 10, total_owed = 60\<rparr>]) = (100::rat)"
  (is "?f \<and> ?fb \<and> ?e \<and> ?eb")
proof -
  have h1: "[\<lparr>name = ''A'', nights_stayed = 0\<rparr>, \<lparr>name = ''B'', nights_stayed = 0\<rparr>] \<noteq> []" by simp
  have h2: "total_night_units [\<lparr>name = ''A'', nights_stayed = 0\<rparr>, \<lparr>name = ''B'', nights_stayed = 0\<rparr>] = 0"
    by (simp add: total_night_units_def)
  have f: ?f by (simp add: f64_eval round_f64_numeral)
  have e: ?e by (simp add: eval_defs)
  note c = equal_split_sum_near_total_cost [OF h1 h2, of 100 "[(''Food'', Finite 20)]" "[(''Food'', 20)]"]
  have "length [\<lparr>name = ''A'', nights_stayed = 0\<rparr>, \<lparr>name = ''B'', nights_stayed = 0\<rparr>] < 2 ^ 53 \<and> \<bar>100 :: rat\<bar> \<le> 10 ^ 25"
    by simp
  with conjunct1 [OF c] f obtain v where
    v: "round_f64 (100 / of_nat (length [\<lparr>name = ''A'', nights_stayed = 0\<rparr>, \<lparr>name = ''B'', nights_stayed = 0\<rparr>])) = Finite v"
    and m: "map accommodation_share
         [\<lparr>row_participant = ''A'', row_nights_stayed = 0, accommodation_share = Finite 50,
            additional_share = Finite 10, total_owed = Finite 60\<rparr>,
          \<lparr>row_participant = ''B'', row_nights_stayed = 0, accommodation_share = Finite 50,
            additional_share = Finite 10, total_owed = Finite 60\<rparr>] = replicate (length [\<lparr>name = ''A'', nights_stayed = 0\<rparr>, \<lparr>name = ''B'', nights_stayed = 0\<rparr>]) (Finite v)"
    and i: "\<bar>100 :: rat\<bar> \<le> 10 ^ 6 \<longrightarrow>
      \<bar>sum_list (replicate (length [\<lparr>name = ''A'', nights_stayed = 0\<rparr>, \<lparr>name = ''B'', nights_stayed = 0\<rparr>]) v) - 100\<bar> \<le> 1 / 10 ^ 9"
    by blast
  have "\<bar>sum_list (replicate (length [\<lparr>name = ''A'', nights_stayed = 0\<rparr>, \<lparr>name = ''B'', nights_stayed = 0\<rparr>]) v) - 100\<bar> \<le> 1 / 10 ^ 9"
    by (rule mp [OF i]) simp
  with v m have fb: ?fb by (intro exI [of _ v]) (simp add: numeral_2_eq_2)
  have eb: ?eb using conjunct2 [OF c] e by blast
  show ?thesis using f fb e eb by blast
qed

text \<open>
  As stated, with a sum that equals the total cost exactly, the claim fails on the
  program: a total cost of \<open>1.0\<close> among six participants of zero nights gives six shares
  of \<open>0.16666666666666666\<close>, whose sum is \<open>1 - 2^-54\<close>.
\<close>

theorem equal_split_sum_off_counterexample:
  "breakdown_rows binary64 (Finite 1) 
     [\<lparr>name = ''A'', nights_stayed = 0\<rparr>, \<lparr>name = ''B'', nights_stayed = 0\<rparr>, \<lparr>name = ''C'', nights_stayed = 0\<rparr>, \<lparr>name = ''D'', nights_stayed = 0\<rparr>, \<lparr>name = ''E'', nights_stayed = 0\<rparr>, \<lparr>name = ''F'', nights_stayed = 0\<rparr>] [] =
     Inr [\<lparr>row_participant = ''A'', row_nights_stayed = 0, accommodation_share = Finite (6004799503160661 / 36028797018963968),
            additional_share = Finite 0, total_owed = round_f64 (17 / 100)\<rparr>,
          \<lparr>row_participant = ''B'', row_nights_stayed = 0, accommodation_share = Finite (6004799503160661 / 36028797018963968),
            additional_share = Finite 0, total_owed = round_f64 (17 / 100)\<rparr>,
          \<lparr>row_participant = ''C'', row_nights_stayed = 0, accommodation_share = Finite (6004799503160661 / 36028797018963968),
            additional_share = Finite 0, total_owed = round_f64 (17 / 100)\<rparr>,
          \<lparr>row_participant = ''D'', row_nights_stayed = 0, accommodation_share = Finite (6004799503160661 / 36028797018963968),
            additional_share = Finite 0, total_owed = round_f64 (17 / 100)\<rparr>,
          \<lparr>row_participant = ''E'', row_nights_stayed = 0, accommodation_share = Finite (6004799503160661 / 36028797018963968),
            additional_share = Finite 0, total_owed = round_f64 (17 / 100)\<rparr>,
          \<lparr>row_participant = ''F'', row_nights_stayed = 0, accommodation_share = Finite (6004799503160661 / 36028797018963968),
            additional_share = Finite 0, total_owed = round_f64 (17 / 100)\<rparr>] \<and>
   sum_list (replicate 6 (6004799503160661 / 36028797018963968)) = (1 - 1 / 2 ^ 54 :: rat)"
  by (simp add: f64_eval round_f64_numeral round_f64_one round_f64_1_6 round_f64_sixth round_f64_17_100
      sum_list_replicate)




subsection \<open>The equal split\<close>

text \<open>
  Claim C6, as amended. When every participant of a non-empty list (fewer than \<open>2^53\<close>
  entries) stayed zero nights, every row's accommodation share is the float quotient of
  the total cost \<open>c\<close> by the number \<open>n\<close> of participants, the exact quotient rounded
  once; it is not zero when \<open>\<bar>c\<bar>\<close> is at least \<open>n / 2^1074\<close>.
\<close>
theorem zero_nights_equal_float_split:
  assumes "participants_info \<noteq> []"
    and "\<forall>p\<in>set participants_info. nights_stayed p = 0"
    and "length participants_info < 2 ^ 53"
    and "breakdown_rows binary64 (Finite c) participants_info expenses = Inr rows"
    and "r \<in> set rows"
  shows "accommodation_share r = round_f64 (c / of_nat (length participants_info)) \<and>
         (of_nat (length participants_info) / 2 ^ 1074 \<le> \<bar>c\<bar> \<longrightarrow>
            accommodation_share r \<noteq> Finite 0)"
proof -
  let ?n = "length participants_info"
  have n: "0 < ?n" using assms(1) by simp
  have t: "total_night_units participants_info = 0"
    using assms(2) unfolding total_night_units_def by (simp add: filter_False)
  have l: "list_all2 (row_of binary64 (Finite c) ?n 0 (num_sum binary64 (map snd expenses)))
      participants_info rows"
    using assms(4) t by (simp add: breakdown_rows_def breakdown_loop_Inr_iff)
  from row_of_member [OF l assms(5)] obtain p where
    "row_of binary64 (Finite c) ?n 0 (num_sum binary64 (map snd expenses)) p r" ..
  then have a: "accommodation_share r = round_f64 (c / of_nat ?n)"
    using equal_split_binary64(1) [OF n assms(3), of c] by (simp add: row_of_def)
  have "accommodation_share r \<noteq> Finite 0" if b: "of_nat ?n / 2 ^ 1074 \<le> \<bar>c\<bar>"
  proof -
    have N: "(0::rat) < of_nat ?n" using n by simp
    have "(1::rat) / 2 ^ 1074 = of_nat ?n / 2 ^ 1074 / of_nat ?n" using N by simp
    also have "\<dots> \<le> \<bar>c\<bar> / of_nat ?n" using b N by (intro divide_right_mono) simp_all
    also have "\<dots> = \<bar>c / of_nat ?n\<bar>" by simp
    finally show ?thesis unfolding a by (rule round_f64_nonzero)
  qed
  then show ?thesis using a by blast
qed

theorem zero_nights_equal_float_split_witness:
  "breakdown_rows binary64 (Finite 100) [\<lparr>name = ''A'', nights_stayed = 0\<rparr>, \<lparr>name = ''B'', nights_stayed = 0\<rparr>] [(''Food'', Finite 20)] =
     Inr [\<lparr>row_participant = ''A'', row_nights_stayed = 0, accommodation_share = Finite 50,
            additional_share = Finite 10, total_owed = Finite 60\<rparr>,
          \<lparr>row_participant = ''B'', row_nights_stayed = 0, accommodation_share = Finite 50,
            additional_share = Finite 10, total_owed = Finite 60\<rparr>] \<and>
   accommodation_share
     (\<lparr>row_participant = ''B'', row_nights_stayed = 0, accommodation_share = Finite 50,
            additional_share = Finite 10, total_owed = Finite 60\<rparr>) = round_f64 (100 / 2) \<and>
   accommodation_share
     (\<lparr>row_participant = ''B'', row_nights_stayed = 0, accommodation_share = Finite 50,
            additional_share = Finite 10, total_owed = Finite 60\<rparr>) \<noteq> Finite 0"
  (is "?h \<and> ?c1 \<and> ?c2")
proof -
  have h1: "[\<lparr>name = ''A'', nights_stayed = 0\<rparr>, \<lparr>name = ''B'', nights_stayed = 0\<rparr>] \<noteq> []" by simp
  have h2: "\<forall>p\<in>set [\<lparr>name = ''A'', nights_stayed = 0\<rparr>, \<lparr>name = ''B'', nights_stayed = 0\<rparr>]. nights_stayed p = 0" by simp
  have h3: "length [\<lparr>name = ''A'', nights_stayed = 0\<rparr>, \<lparr>name = ''B'', nights_stayed = 0\<rparr>] < 2 ^ 53" by simp
  have h4: ?h by (simp add: f64_eval round_f64_numeral)
  have h5: "\<lparr>row_participant = ''B'', row_nights_stayed = 0, accommodation_share = Finite 50,
            additional_share = Finite 10, total_owed = Finite 60\<rparr>
      \<in> set [\<lparr>row_participant = ''A'', row_nights_stayed = 0, accommodation_share = Finite 50,
            additional_share = Finite 10, total_owed = Finite 60\<rparr>,
          \<lparr>row_participant = ''B'', row_nights_stayed = 0, accommodation_share = Finite 50,
            additional_share = Finite 10, total_owed = Finite 60\<rparr>]"
    by simp
  note c = zero_nights_equal_float_split [OF h1 h2 h3 h4 h5]
  have c1: ?c1 using conjunct1 [OF c] by simp
  have c2: ?c2 by (rule mp [OF conjunct2 [OF c]]) simp
  show ?thesis using h4 c1 c2 by blast
qed

text \<open>
  As stated, with a share that is never zero, the claim fails on the program: the total
  cost \<open>5e-324\<close>, the smallest positive float, between two participants of zero nights
  gives two shares of \<open>0.0\<close>, since half of the smallest positive float rounds to zero.
\<close>

theorem zero_nights_share_underflows_counterexample:
  "breakdown_rows binary64 (round_f64 (5 / 10 ^ 324)) [\<lparr>name = ''A'', nights_stayed = 0\<rparr>, \<lparr>name = ''B'', nights_stayed = 0\<rparr>] [] =
     Inr [\<lparr>row_participant = ''A'', row_nights_stayed = 0, accommodation_share = Finite 0,
            additional_share = Finite 0, total_owed = Finite 0\<rparr>,
          \<lparr>row_participant = ''B'', row_nights_stayed = 0, accommodation_share = Finite 0,
            additional_share = Finite 0, total_owed = Finite 0\<rparr>] \<and>
   round_f64 (5 / 10 ^ 324) = Finite (1 / 2 ^ 1074) \<and> (1 / 2 ^ 1074 :: rat) \<noteq> 0"
  unfolding round_f64_5e324
  by (simp add: f64_eval round_f64_numeral round_f64_half_ulp [simplified])

subsection \<open>The rounded total\<close>

text \<open>
  Claim C7. The claim asks for the total owed to be the sum of the two shares rounded
  half-up to two decimals. With a total cost of \<open>82.1\<close>, stays of six and four nights and
  one expense of \<open>158.37\<close>, the first row carries the shares \<open>49.26\<close> and \<open>79.185\<close>,
  returned unrounded. Their sum rounds half-up to \<open>128.45\<close>, whether the two floats are
  read by their exact values or as the decimals they print as. The program adds the two
  floats first; the float sum lies below \<open>128.445\<close>, and \<open>Decimal\<close> of that float rounds
  to \<open>128.44\<close>.
\<close>
theorem total_owed_misses_half_up_of_sum:
  "breakdown_rows binary64 (round_f64 (821 / 10)) [\<lparr>name = ''Person1'', nights_stayed = 6\<rparr>, \<lparr>name = ''Person2'', nights_stayed = 4\<rparr>]
     [(''Rent'', round_f64 (15837 / 100))] =
     Inr [\<lparr>row_participant = ''Person1'', row_nights_stayed = 6, accommodation_share = round_f64 (4926 / 100),
            additional_share = round_f64 (79185 / 1000), total_owed = round_f64 (12844 / 100)\<rparr>,
          \<lparr>row_participant = ''Person2'', row_nights_stayed = 4, accommodation_share = Finite (4621819117588971 / 140737488355328),
            additional_share = round_f64 (79185 / 1000), total_owed = round_f64 (11203 / 100)\<rparr>] \<and>
   round_f64 (4926 / 100) = Finite (6932728676383457 / 140737488355328) \<and>
   round_f64 (79185 / 1000) = Finite (1393037251927081 / 17592186044416) \<and>
   round_half_up_2dp (6932728676383457 / 140737488355328 + 1393037251927081 / 17592186044416) = 12845 / 100 \<and>
   round_half_up_2dp (4926 / 100 + 79185 / 1000) = 12845 / 100 \<and>
   round_f64 (12844 / 100) \<noteq> round_f64 (12845 / 100)"
  by (simp add: f64_eval round_f64_numeral round_f64_c7_1 round_f64_c7_2 round_f64_c7_3 round_f64_c7_4 round_f64_c7_5 round_f64_c7_6 round_f64_c7_7 round_f64_c7_8 round_f64_c7_9 round_f64_c7_10 round_f64_c7_11 round_f64_c7_12 round_f64_c7_13 round_f64_c7_14
      round_f64_nearest [of "2569 / 20" "7" "-45" "4519432594810470"])

subsection \<open>The expenses\<close>

text \<open>
  Claim C10, as amended. The expenses enter both computations only through the value
  \<open>sum\<close> computes from their amounts: two expense dictionaries for which \<open>sum\<close> returns the
  same value give the same result, over any arithmetic, whatever the labels and however
  the amounts are partitioned.
\<close>
theorem expenses_only_through_sum:
  assumes "num_sum ar (map snd expenses1) = num_sum ar (map snd expenses2)"
  shows "even_split_expenses ar total_cost participants_info expenses1 =
           even_split_expenses ar total_cost participants_info expenses2 \<and>
         breakdown_rows ar total_cost participants_info expenses1 =
           breakdown_rows ar total_cost participants_info expenses2"
  unfolding even_split_expenses_def breakdown_rows_def assms by simp

theorem expenses_only_through_sum_witness:
  "even_split_expenses binary64 (Finite 300)
     [\<lparr>name = ''Person1'', nights_stayed = 2\<rparr>, \<lparr>name = ''Person2'', nights_stayed = 2\<rparr>] [(''Groceries'', Finite 100)] =
   even_split_expenses binary64 (Finite 300)
     [\<lparr>name = ''Person1'', nights_stayed = 2\<rparr>, \<lparr>name = ''Person2'', nights_stayed = 2\<rparr>] [(''Food'', Finite 60), (''Fuel'', Finite 40)] \<and>
   breakdown_rows binary64 (Finite 300)
     [\<lparr>name = ''Person1'', nights_stayed = 2\<rparr>, \<lparr>name = ''Person2'', nights_stayed = 2\<rparr>] [(''Groceries'', Finite 100)] =
   breakdown_rows binary64 (Finite 300)
     [\<lparr>name = ''Person1'', nights_stayed = 2\<rparr>, \<lparr>name = ''Person2'', nights_stayed = 2\<rparr>] [(''Food'', Finite 60), (''Fuel'', Finite 40)]"
proof -
  have h: "num_sum binary64 (map snd [(''Groceries'', Finite 100)]) =
           num_sum binary64 (map snd [(''Food'', Finite 60), (''Fuel'', Finite 40)])"
    by (simp add: binary64_simps f64_sum_def round_f64_numeral)
  show ?thesis by (rule expenses_only_through_sum [OF h])
qed

text \<open>
  As stated, for every two dictionaries whose amounts have the same total, the claim fails
  on the program, since a float sum depends on the order of its terms: the amounts
  \<open>221.33\<close>, \<open>231.25\<close> and \<open>656.03\<close> sum to \<open>1108.6100000000001\<close> in this order and to
  \<open>1108.61\<close> in the reverse order, and two participants owe \<open>554.31\<close> each in the first
  case and \<open>554.3\<close> each in the second.
\<close>

theorem expense_order_changes_result_counterexample:
  "even_split_expenses binary64 (Finite 0)
     [\<lparr>name = ''Person1'', nights_stayed = 1\<rparr>, \<lparr>name = ''Person2'', nights_stayed = 1\<rparr>]
     [(''Food'', round_f64 (22133 / 100)), (''Fuel'', round_f64 (23125 / 100)),
      (''Rent'', round_f64 (65603 / 100))] =
     Inr [(''Person1'', round_f64 (55431 / 100)), (''Person2'', round_f64 (55431 / 100))] \<and>
   even_split_expenses binary64 (Finite 0)
     [\<lparr>name = ''Person1'', nights_stayed = 1\<rparr>, \<lparr>name = ''Person2'', nights_stayed = 1\<rparr>]
     [(''Rent'', round_f64 (65603 / 100)), (''Fuel'', round_f64 (23125 / 100)),
      (''Food'', round_f64 (22133 / 100))] =
     Inr [(''Person1'', round_f64 (5543 / 10)), (''Person2'', round_f64 (5543 / 10))] \<and>
   round_f64 (55431 / 100) \<noteq> round_f64 (5543 / 10)"
  by (simp add: f64_eval round_f64_numeral round_f64_half round_f64_c10_1 round_f64_c10_2 round_f64_c10_3 round_f64_c10_4 round_f64_c10_5 round_f64_c10_6 round_f64_c10_7 round_f64_c10_8 round_f64_c10_9 round_f64_c10_10 round_f64_c10_11 round_f64_c10_12 round_f64_c10_13)

end
